theory Spec2Isabelle
  imports Complex_Main "HOL-Library.AList" "HOL-Library.Log_Nat" "HOL-Library.Multiset"
    "HOL-Library.Sublist"
begin

section \<open>The token prefix tree of \<open>tree_builder.py\<close>\<close>

subsection \<open>Python floats\<close>

text \<open>
  Scores are Python floats (\<open>scores: Optional[List[float]]\<close>, \<open>self.score: Optional[float]\<close>,
  \<open>self.descendant_score_sum = 0.0\<close>), that is, IEEE 754 double precision numbers. A
  finite float other than \<open>-0.0\<close> is represented by its value, which is a rational number
  (\<open>Finite 0\<close> is \<open>0.0\<close>); the other floats are \<open>-0.0\<close>, the two infinities and \<open>nan\<close>.
  Two floats are the same value of this type exactly when \<open>json.dumps\<close> writes them the
  same way, so \<open>0.0\<close> and \<open>-0.0\<close> are different although \<open>0.0 == -0.0\<close> holds. Scores of
  other Python types than the declared one (an \<open>int\<close>, say) are not modelled.
\<close>

datatype pyfloat = Finite rat | NegZero | PosInf | NegInf | NaN

text \<open>The rational number \<open>2^e\<close> for an integer exponent.\<close>

definition pow2 :: "int \<Rightarrow> rat" where
  "pow2 e = (if 0 \<le> e then 2 ^ nat e else 1 / 2 ^ nat (- e))"

text \<open>The binary exponent of a positive rational: the \<open>k\<close> with \<open>2^k \<le> a < 2^(k+1)\<close>.\<close>

definition ilog2 :: "rat \<Rightarrow> int" where
  "ilog2 a = (if 1 \<le> a then bitlen \<lfloor>a\<rfloor> - 1 else - bitlen (\<lceil>1 / a\<rceil> - 1))"

text \<open>The nearest integer of a non-negative rational, a tie going to the even neighbour.\<close>

definition round_half_even :: "rat \<Rightarrow> int" where
  "round_half_even x =
     (let f = \<lfloor>x\<rfloor>; r = x - of_int f
      in if r < 1 / 2 then f else if 1 / 2 < r then f + 1 else if even f then f else f + 1)"

text \<open>
  The float that an operation with exact result \<open>q\<close> returns, in the rounding mode of the
  interpreter (to nearest, ties to even): the result keeps 53 significant bits, or fewer
  below the smallest normal number, where the spacing is \<open>2^(-1074)\<close>; a result that rounds
  to \<open>2^1024\<close> or more in magnitude is an infinity, and a non-zero result that rounds to
  zero keeps its sign. This is also the value of a decimal literal such as \<open>0.1\<close>.
\<close>

definition round_double :: "rat \<Rightarrow> pyfloat" where
  "round_double q =
     (if q = 0 then Finite 0
      else
        (let a = \<bar>q\<bar>;
             e = max (ilog2 a - 52) (- 1074);
             m = round_half_even (a / pow2 e);
             v = of_int m * pow2 e
         in if pow2 1024 \<le> v then (if 0 < q then PosInf else NegInf)
            else if v = 0 then (if 0 < q then Finite 0 else NegZero)
            else Finite (if 0 < q then v else - v)))"

text \<open>The value of a finite float (0 for the other floats, where it is not used).\<close>

fun float_value :: "pyfloat \<Rightarrow> rat" where
  "float_value (Finite q) = q"
| "float_value _ = 0"

text \<open>
  The operator \<open>+\<close> on floats: \<open>nan\<close> and the infinities as IEEE 754 has them,
  \<open>-0.0 + -0.0 = -0.0\<close>, and otherwise the exact sum rounded (an exact sum of zero is
  \<open>0.0\<close>).
\<close>

definition float_add :: "pyfloat \<Rightarrow> pyfloat \<Rightarrow> pyfloat" where
  "float_add x y =
     (if x = NaN \<or> y = NaN then NaN
      else if x = PosInf then (if y = NegInf then NaN else PosInf)
      else if x = NegInf then (if y = PosInf then NaN else NegInf)
      else if y = PosInf \<or> y = NegInf then y
      else if x = NegZero \<and> y = NegZero then NegZero
      else round_double (float_value x + float_value y))"

text \<open>
  The operator \<open>/\<close> with a float on the left and an \<open>int\<close> count \<open>n\<close> on the right: the
  count is converted to a float (exactly below \<open>2^53\<close>, rounded above) and the exact
  quotient is rounded. The code divides by positive counts only (for \<open>n = 0\<close> Python
  raises \<open>ZeroDivisionError\<close>), and a count is far below \<open>2^1024\<close>, where the conversion
  would raise \<open>OverflowError\<close>.
\<close>

definition float_of_nat :: "nat \<Rightarrow> pyfloat" where
  "float_of_nat n = round_double (of_nat n)"

definition float_div_count :: "pyfloat \<Rightarrow> nat \<Rightarrow> pyfloat" where
  "float_div_count x n =
     (case x of
        Finite q \<Rightarrow> round_double (q / float_value (float_of_nat n))
      | _ \<Rightarrow> x)"

subsection \<open>Nodes\<close>

text \<open>
  A node's \<open>token_id\<close> is the string \<open>"ROOT"\<close> for the root and the integer token of the
  completion elsewhere.
\<close>

datatype token = ROOT | Tok int

text \<open>
  \<open>class TreeNode\<close>. The \<open>children\<close> dictionary is an association list in insertion order
  (the order in which Python iterates a \<open>dict\<close>); \<open>structural_hash\<close> is \<open>None\<close> until the
  fingerprint pass stores it.
\<close>

datatype node = Node
  (token_id: token)
  (unique_id: nat)
  (children: "(int \<times> node) list")
  (is_end_of_completion: bool)
  (score: "pyfloat option")
  (count: nat)
  (structural_hash: "int option")
  (descendant_leaf_count: nat)
  (descendant_score_sum: pyfloat)

text \<open>\<open>TreeNode.__init__\<close>\<close>

definition TreeNode :: "token \<Rightarrow> nat \<Rightarrow> node" where
  "TreeNode tok uid = Node tok uid [] False None 0 None 0 (Finite 0)"

text \<open>Field assignments \<open>node.f = v\<close>, one function per assigned field.\<close>

fun set_children :: "(int \<times> node) list \<Rightarrow> node \<Rightarrow> node" where
  "set_children cs (Node tok uid _ e sc cnt sh dlc dss) = Node tok uid cs e sc cnt sh dlc dss"

fun set_count :: "nat \<Rightarrow> node \<Rightarrow> node" where
  "set_count k (Node tok uid cs e sc _ sh dlc dss) = Node tok uid cs e sc k sh dlc dss"

fun set_structural_hash :: "int option \<Rightarrow> node \<Rightarrow> node" where
  "set_structural_hash h (Node tok uid cs e sc cnt _ dlc dss) = Node tok uid cs e sc cnt h dlc dss"

fun set_leaf_stats :: "nat \<Rightarrow> pyfloat \<Rightarrow> node \<Rightarrow> node" where
  "set_leaf_stats l s (Node tok uid cs e sc cnt sh _ _) = Node tok uid cs e sc cnt sh l s"

text \<open>
  The end of the loop body of \<open>_build_tree\<close>: \<open>node.is_end_of_completion = True\<close>, and
  \<open>node.score = scores[i]\<close> when a score is available (\<open>Some s\<close>); otherwise the score
  field is not assigned.
\<close>

fun mark_end :: "pyfloat option \<Rightarrow> node \<Rightarrow> node" where
  "mark_end sc (Node tok uid cs e old cnt sh dlc dss) =
     Node tok uid cs True (case sc of None \<Rightarrow> old | Some s \<Rightarrow> Some s) cnt sh dlc dss"

subsection \<open>Construction\<close>

text \<open>
  Lines 112--114 of the loop: the child stored under the token, created with the next
  identifier (which advances the counter) when the key is missing.
\<close>

definition child_for :: "node \<Rightarrow> int \<Rightarrow> nat \<Rightarrow> node \<times> nat" where
  "child_for n t nid =
     (case map_of (children n) t of
        None \<Rightarrow> (TreeNode (Tok t) nid, Suc nid)
      | Some c \<Rightarrow> (c, nid))"

text \<open>
  The inner loop of \<open>_build_tree\<close> from the node reached so far: look the token up among
  the children, create the child with the next identifier when it is missing, step into
  it, increment its count, and go on with the remaining tokens. The updated child is
  stored back under its key, which keeps the key's position in the dictionary (a new
  key goes last). The second component is the identifier counter \<open>_next_id\<close>.
\<close>

fun insert_tokens :: "int list \<Rightarrow> pyfloat option \<Rightarrow> node \<Rightarrow> nat \<Rightarrow> node \<times> nat" where
  "insert_tokens [] sc n nid = (mark_end sc n, nid)"
| "insert_tokens (t # ts) sc n nid =
     (let (c, nid1) = child_for n t nid;
          (c', nid2) = insert_tokens ts sc (set_count (count c + 1) c) nid1
      in (set_children (AList.update t c' (children n)) n, nid2))"

text \<open>The guard \<open>scores is not None and i < len(scores)\<close> and the score it selects.\<close>

definition score_for :: "pyfloat list option \<Rightarrow> nat \<Rightarrow> pyfloat option" where
  "score_for scores i =
     (case scores of None \<Rightarrow> None
      | Some ss \<Rightarrow> if i < length ss then Some (ss ! i) else None)"

text \<open>The outer loop \<open>for i, tokens in enumerate(completions)\<close>, from index \<open>i\<close> on.\<close>

fun build_loop :: "pyfloat list option \<Rightarrow> nat \<Rightarrow> int list list \<Rightarrow> node \<times> nat \<Rightarrow> node \<times> nat" where
  "build_loop scores i [] st = st"
| "build_loop scores i (tokens # rest) st =
     build_loop scores (Suc i) rest (insert_tokens tokens (score_for scores i) (fst st) (snd st))"

text \<open>\<open>_build_tree\<close>, with the identifier counter passed in and returned.\<close>

definition build_tree :: "int list list \<Rightarrow> pyfloat list option \<Rightarrow> nat \<Rightarrow> node \<times> nat" where
  "build_tree completions scores next_id =
     build_loop scores 0 completions
       (set_count (length completions) (TreeNode ROOT next_id), Suc next_id)"

subsection \<open>Structural hashes\<close>

text \<open>
  The tuple \<open>hash_components\<close> of \<open>_compute_structural_hashes\<close>. \<open>_stable_hash\<close> is
  \<open>hash(json.dumps(value, sort_keys=True))\<close>: both functions belong to the Python runtime,
  so the embedding takes their composition, as one interpreter process evaluates it, as
  the parameter \<open>H\<close>.
\<close>

type_synonym hash_components = "token \<times> bool \<times> pyfloat option \<times> (int \<times> int) list"

lemma size_child: "p \<in> set (children n) \<Longrightarrow> size (snd p) < size n"
proof (cases n)
  case (Node tok uid cs e sc cnt sh dlc dss)
  assume "p \<in> set (children n)"
  with Node have "p \<in> set cs" by simp
  then have "size_prod (\<lambda>_. 0) size p \<le> size_list (size_prod (\<lambda>_. 0) size) cs"
    by (rule size_list_estimation') simp
  moreover have "size (snd p) < Suc (size_prod (\<lambda>_. 0) size p)" by (cases p) simp
  ultimately show ?thesis using Node by simp
qed

text \<open>
  \<open>_compute_structural_hashes\<close>: a cached hash is returned as it is; otherwise the
  children are hashed in ascending key order (\<open>sorted(node.children.items())\<close>; the keys of
  a dictionary are distinct, so the order is that of the keys), and the hash is stored
  on the node. The result is the node after the call and the returned hash.
\<close>

function compute_structural_hashes :: "(hash_components \<Rightarrow> int) \<Rightarrow> node \<Rightarrow> node \<times> int" where
  "compute_structural_hashes H n =
     (case structural_hash n of
        Some h \<Rightarrow> (n, h)
      | None \<Rightarrow>
          (let sorted_children = sort_key fst (children n);
               child_hashes = map (\<lambda>p. (fst p, snd (compute_structural_hashes H (snd p)))) sorted_children;
               hash_components = (token_id n, is_end_of_completion n,
                                  (if is_end_of_completion n then score n else None),
                                  child_hashes);
               h = H hash_components
           in (set_structural_hash (Some h)
                 (set_children (map (\<lambda>p. (fst p, fst (compute_structural_hashes H (snd p)))) (children n)) n),
               h)))"
  by pat_completeness auto
termination
  by (relation "measure (\<lambda>(H, n). size n)") (auto simp: size_child)

declare compute_structural_hashes.simps [simp del]

subsection \<open>Leaf statistics\<close>

text \<open>
  \<open>_compute_leaf_stats\<close>: an end node is the base case and its children are not visited;
  otherwise the children's results are added up in dictionary order. The result is the
  node after the call and the returned pair.
\<close>

function compute_leaf_stats :: "node \<Rightarrow> node \<times> (nat \<times> pyfloat)" where
  "compute_leaf_stats n =
     (if is_end_of_completion n then
        (let total_leaves = 1;
             score_sum = (case score n of Some s \<Rightarrow> s | None \<Rightarrow> Finite 0)
         in (set_leaf_stats total_leaves score_sum n, (total_leaves, score_sum)))
      else
        (let results = map (\<lambda>p. (fst p, compute_leaf_stats (snd p))) (children n);
             totals = fold (\<lambda>r acc. (fst acc + fst (snd (snd r)), float_add (snd acc) (snd (snd (snd r)))))
                      results (0, Finite 0);
             total_leaves = fst totals;
             score_sum = snd totals
         in (set_leaf_stats total_leaves score_sum
               (set_children (map (\<lambda>r. (fst r, fst (snd r))) results) n),
             (total_leaves, score_sum))))"
  by pat_completeness auto
termination
  by (relation "measure size") (auto simp: size_child)

declare compute_leaf_stats.simps [simp del]

subsection \<open>The tree object\<close>

record completion_tree =
  has_scores :: bool
  next_id :: nat
  root :: node

text \<open>
  \<open>CompletionTree.__init__\<close>: construction, then the fingerprint pass, then the statistics
  pass, each on the tree the previous step left. The hash parameter \<open>H\<close> stands for
  \<open>_stable_hash\<close> in the running process.
\<close>

definition CompletionTree :: "(hash_components \<Rightarrow> int) \<Rightarrow> int list list \<Rightarrow> pyfloat list option \<Rightarrow> completion_tree" where
  "CompletionTree H completions scores =
     (let built = build_tree completions scores 0;
          hashed = fst (compute_structural_hashes H (fst built));
          final = fst (compute_leaf_stats hashed)
      in \<lparr>has_scores = (scores \<noteq> None), next_id = snd built, root = final\<rparr>)"

text \<open>\<open>get_node_score_percentage\<close>; \<open>None\<close> is Python's \<open>None\<close>.\<close>

definition get_node_score_percentage :: "completion_tree \<Rightarrow> node \<Rightarrow> pyfloat option" where
  "get_node_score_percentage tree n =
     (if \<not> has_scores tree \<or> descendant_leaf_count n = 0 then None
      else Some (float_div_count (descendant_score_sum n) (descendant_leaf_count n)))"

subsection \<open>The passes under a bound on the call depth\<close>

text \<open>
  Both passes are recursive Python functions, one nested call per tree level, and the
  interpreter raises \<open>RecursionError\<close> when the call depth passes its limit; the code has
  no handler, so the error ends the constructor. The functions below are the two passes
  with an extra argument \<open>d\<close>, the number of nested activations of the pass that still
  fit under the interpreter's limit (what one activation needs for its own calls to
  \<open>sorted\<close> and \<open>_stable_hash\<close> is counted with it): an activation for which no room is
  left raises, and an error in a child's call is the result of the parent's call.
\<close>

datatype error = RecursionError

fun compute_structural_hashes_limited ::
  "nat \<Rightarrow> (hash_components \<Rightarrow> int) \<Rightarrow> node \<Rightarrow> error + node \<times> int" where
  "compute_structural_hashes_limited 0 H n = Inl RecursionError"
| "compute_structural_hashes_limited (Suc d) H n =
     (case structural_hash n of
        Some h \<Rightarrow> Inr (n, h)
      | None \<Rightarrow>
          (if list_ex (\<lambda>p. isl (compute_structural_hashes_limited d H (snd p))) (sort_key fst (children n))
           then Inl RecursionError
           else
             (let sorted_children = sort_key fst (children n);
                  child_hashes = map (\<lambda>p. (fst p, snd (projr (compute_structural_hashes_limited d H (snd p)))))
                                   sorted_children;
                  hash_components = (token_id n, is_end_of_completion n,
                                     (if is_end_of_completion n then score n else None),
                                     child_hashes);
                  h = H hash_components
              in Inr (set_structural_hash (Some h)
                        (set_children
                           (map (\<lambda>p. (fst p, fst (projr (compute_structural_hashes_limited d H (snd p)))))
                              (children n)) n),
                      h))))"

fun compute_leaf_stats_limited :: "nat \<Rightarrow> node \<Rightarrow> error + node \<times> (nat \<times> pyfloat)" where
  "compute_leaf_stats_limited 0 n = Inl RecursionError"
| "compute_leaf_stats_limited (Suc d) n =
     (if is_end_of_completion n then
        (let total_leaves = 1;
             score_sum = (case score n of Some s \<Rightarrow> s | None \<Rightarrow> Finite 0)
         in Inr (set_leaf_stats total_leaves score_sum n, (total_leaves, score_sum)))
      else if list_ex (\<lambda>p. isl (compute_leaf_stats_limited d (snd p))) (children n)
      then Inl RecursionError
      else
        (let results = map (\<lambda>p. (fst p, projr (compute_leaf_stats_limited d (snd p)))) (children n);
             totals = fold (\<lambda>r acc. (fst acc + fst (snd (snd r)), float_add (snd acc) (snd (snd (snd r)))))
                      results (0, Finite 0);
             total_leaves = fst totals;
             score_sum = snd totals
         in Inr (set_leaf_stats total_leaves score_sum
                   (set_children (map (\<lambda>r. (fst r, fst (snd r))) results) n),
                 (total_leaves, score_sum))))"

section \<open>Notions used to state the properties\<close>

subsection \<open>Nodes along paths\<close>

text \<open>
  The node reached from \<open>n\<close> by following the tokens of a path through the \<open>children\<close>
  dictionaries, as the construction loop walks them; \<open>None\<close> when a key is missing.
\<close>

fun node_at :: "node \<Rightarrow> int list \<Rightarrow> node option" where
  "node_at n [] = Some n"
| "node_at n (t # ts) = (case map_of (children n) t of None \<Rightarrow> None | Some c \<Rightarrow> node_at c ts)"

text \<open>Whether a path leads to a node.\<close>

definition exists_at :: "node \<Rightarrow> int list \<Rightarrow> bool" where
  "exists_at n p = (node_at n p \<noteq> None)"

text \<open>
  The score and the end flag found at a path; a path that leads to no node has neither.
\<close>

definition score_at :: "node \<Rightarrow> int list \<Rightarrow> pyfloat option" where
  "score_at n p = (case node_at n p of None \<Rightarrow> None | Some m \<Rightarrow> score m)"

definition end_at :: "node \<Rightarrow> int list \<Rightarrow> bool" where
  "end_at n p = (case node_at n p of None \<Rightarrow> False | Some m \<Rightarrow> is_end_of_completion m)"

text \<open>
  The sum of \<open>count\<close> over the direct children of a node, and the count and this sum
  found at a path (both 0 where the path leads to no node).
\<close>

definition child_count_sum :: "node \<Rightarrow> nat" where
  "child_count_sum n = sum_list (map (\<lambda>kc. count (snd kc)) (children n))"

definition count_at :: "node \<Rightarrow> int list \<Rightarrow> nat" where
  "count_at n p = (case node_at n p of None \<Rightarrow> 0 | Some m \<Rightarrow> count m)"

definition kids_at :: "node \<Rightarrow> int list \<Rightarrow> nat" where
  "kids_at n p = (case node_at n p of None \<Rightarrow> 0 | Some m \<Rightarrow> child_count_sum m)"

subsection \<open>The scores of a batch\<close>

text \<open>
  The score list as the loop reads it (no list when \<open>scores\<close> is \<open>None\<close>), and the
  indices of the completions that end at path \<open>p\<close> and pass the guard
  \<open>i < len(scores)\<close>, in processing order.
\<close>

definition score_list :: "pyfloat list option \<Rightarrow> pyfloat list" where
  "score_list scores = (case scores of None \<Rightarrow> [] | Some ss \<Rightarrow> ss)"

definition scored_indices :: "int list list \<Rightarrow> pyfloat list option \<Rightarrow> int list \<Rightarrow> nat list" where
  "scored_indices completions scores p =
     filter (\<lambda>j. completions ! j = p) [0 ..< min (length completions) (length (score_list scores))]"

text \<open>
  The batch as the loop of \<open>_build_tree\<close> reads it: each completion with the score it is
  given at its turn (\<open>None\<close> when the guard fails), starting at index \<open>i\<close>.
\<close>

fun entries_from :: "pyfloat list option \<Rightarrow> nat \<Rightarrow> int list list \<Rightarrow> (int list \<times> pyfloat option) list" where
  "entries_from scores i [] = []"
| "entries_from scores i (tokens # rest) = (tokens, score_for scores i) # entries_from scores (Suc i) rest"

definition entries :: "int list list \<Rightarrow> pyfloat list option \<Rightarrow> (int list \<times> pyfloat option) list" where
  "entries completions scores = entries_from scores 0 completions"

subsection \<open>What the passes return\<close>

text \<open>
  The hash that \<open>_compute_structural_hashes\<close> returns for a node, and the pair that
  \<open>_compute_leaf_stats\<close> returns for it.
\<close>

definition fingerprint :: "(hash_components \<Rightarrow> int) \<Rightarrow> node \<Rightarrow> int" where
  "fingerprint H n = snd (compute_structural_hashes H n)"

definition leaf_stats :: "node \<Rightarrow> nat \<times> pyfloat" where
  "leaf_stats n = snd (compute_leaf_stats n)"

text \<open>
  The float that the statements \<open>score_sum = 0.0\<close> and then \<open>score_sum += x\<close> for each \<open>x\<close>
  of a list, from left to right, leave in \<open>score_sum\<close>.
\<close>

definition float_sum :: "pyfloat list \<Rightarrow> pyfloat" where
  "float_sum xs = foldl float_add (Finite 0) xs"

text \<open>
  The tuple \<open>hash_components\<close> read off a node whose children carry their stored hashes:
  token, end flag, score if the node is an end node, and the (token, stored hash) pairs
  of the children in ascending token order.
\<close>

definition hash_components_of :: "node \<Rightarrow> hash_components" where
  "hash_components_of m =
     (token_id m, is_end_of_completion m,
      (if is_end_of_completion m then score m else None),
      map (\<lambda>p. (fst p, the (structural_hash (snd p)))) (sort_key fst (children m)))"

subsection \<open>Scores as numbers\<close>

text \<open>
  Python's comparison \<open>x == y\<close> of two floats: \<open>nan\<close> equals nothing, not even itself, and
  \<open>0.0 == -0.0\<close> holds.
\<close>

definition float_eq :: "pyfloat \<Rightarrow> pyfloat \<Rightarrow> bool" where
  "float_eq x y =
     (x \<noteq> NaN \<and> y \<noteq> NaN \<and>
      (x = y \<or> (x = Finite 0 \<and> y = NegZero) \<or> (x = NegZero \<and> y = Finite 0)))"

text \<open>
  A float that is a non-negative multiple of \<open>2^(-k)\<close>: for \<open>k = 0\<close> the floats
  \<open>0.0, 1.0, 2.0, ...\<close>, for \<open>k = 2\<close> the floats \<open>0.0, 0.25, 0.5, 0.75, 1.0, ...\<close>.
\<close>

definition on_grid :: "nat \<Rightarrow> pyfloat \<Rightarrow> bool" where
  "on_grid k x =
     (case x of
        Finite q \<Rightarrow> 0 \<le> q \<and> of_int \<lfloor>q * 2 ^ k\<rfloor> = q * 2 ^ k
      | _ \<Rightarrow> False)"

text \<open>
  The pair that the rule of \<open>_compute_leaf_stats\<close> gives in exact arithmetic: the number
  of end nodes that the pass counts below a node, and the sum of the values of their
  scores as rational numbers, without rounding.
\<close>

function exact_stats :: "node \<Rightarrow> nat \<times> rat" where
  "exact_stats n =
     (if is_end_of_completion n
      then (1, case score n of Some s \<Rightarrow> float_value s | None \<Rightarrow> 0)
      else (sum_list (map (\<lambda>p. fst (exact_stats (snd p))) (children n)),
            sum_list (map (\<lambda>p. snd (exact_stats (snd p))) (children n))))"
  by pat_completeness auto
termination
  by (relation "measure size") (auto simp: size_child)

declare exact_stats.simps [simp del]

text \<open>A property of floats that holds of every score stored in a tree.\<close>

function all_scores :: "(pyfloat \<Rightarrow> bool) \<Rightarrow> node \<Rightarrow> bool" where
  "all_scores P n =
     ((case score n of None \<Rightarrow> True | Some s \<Rightarrow> P s) \<and>
      list_all (\<lambda>p. all_scores P (snd p)) (children n))"
  by pat_completeness auto
termination
  by (relation "measure (\<lambda>(P, n). size n)") (auto simp: size_child)

declare all_scores.simps [simp del]

subsection \<open>The shape of constructed trees\<close>

text \<open>
  The number of nodes on the longest downward path from a node, and the property of a
  tree that no node has a cached hash (true of a tree right after construction).
\<close>

function height :: "node \<Rightarrow> nat" where
  "height n = Suc (fold max (map (\<lambda>p. height (snd p)) (children n)) 0)"
  by pat_completeness auto
termination
  by (relation "measure size") (auto simp: size_child)

declare height.simps [simp del]

function unhashed :: "node \<Rightarrow> bool" where
  "unhashed n = (structural_hash n = None \<and> list_all (\<lambda>p. unhashed (snd p)) (children n))"
  by pat_completeness auto
termination
  by (relation "measure size") (auto simp: size_child)

declare unhashed.simps [simp del]

text \<open>
  The shape of a \<open>children\<close> dictionary in a constructed tree: keys are distinct, and the
  child stored under a key has this key as its token.
\<close>

function well_keyed :: "node \<Rightarrow> bool" where
  "well_keyed n =
     (distinct (map fst (children n)) \<and>
      list_all (\<lambda>p. token_id (snd p) = Tok (fst p) \<and> well_keyed (snd p)) (children n))"
  by pat_completeness auto
termination
  by (relation "measure size") (auto simp: size_child)

declare well_keyed.simps [simp del]

text \<open>
  A path is fresh in a tree when inserting it adds a new leaf: no node on it is an end
  node, it does not stop at a node that has children, and at the end of the path there
  is no node yet (or the node is the empty root).
\<close>

fun fresh :: "node \<Rightarrow> int list \<Rightarrow> bool" where
  "fresh n [] = (\<not> is_end_of_completion n \<and> children n = [])"
| "fresh n (t # ts) =
     (\<not> is_end_of_completion n \<and>
      (case map_of (children n) t of None \<Rightarrow> True | Some c \<Rightarrow> fresh c ts))"

section \<open>Basic facts\<close>

subsection \<open>Rounding\<close>

lemma pow2_pos [simp]: "0 < pow2 e"
  by (simp add: pow2_def)

lemma round_half_even_of_int [simp]: "round_half_even (of_int z) = z"
  by (simp add: round_half_even_def)

lemma ilog2_less:
  assumes "0 < a" and "a < pow2 j"
  shows "ilog2 a < j"
proof (cases "1 \<le> a")
  case True
  with assms(2) have "1 < pow2 j" by simp
  then have j: "0 < j"
    by (cases "0 \<le> j") (auto simp: pow2_def field_simps intro: not_le_imp_less
        dest: order_less_le_trans [OF _ one_le_power [of "2::rat"]])
  with assms(2) have "a < 2 ^ nat j" by (simp add: pow2_def)
  then have "\<lfloor>a\<rfloor> < 2 ^ nat j"
    by (simp add: floor_less_iff)
  with j have "bitlen \<lfloor>a\<rfloor> \<le> j"
    by (simp add: bitlen_le_iff_power)
  with True show ?thesis by (simp add: ilog2_def)
next
  case False
  show ?thesis
  proof (cases "0 < j")
    case True
    have "0 \<le> bitlen (\<lceil>1 / a\<rceil> - 1)" by (rule bitlen_nonneg)
    with True False show ?thesis by (simp add: ilog2_def)
  next
    case nonpos: False
    define n where "n = nat (- j)"
    from nonpos assms(2) have "a < 1 / 2 ^ n"
      by (cases "j = 0") (simp_all add: pow2_def n_def)
    with assms(1) have "2 ^ n < 1 / a"
      by (simp add: field_simps)
    then have "2 ^ n < \<lceil>1 / a\<rceil>"
      by (simp add: less_ceiling_iff)
    then have "\<not> \<lceil>1 / a\<rceil> - 1 < 2 ^ n" by simp
    then have "\<not> bitlen (\<lceil>1 / a\<rceil> - 1) \<le> int n"
      by (simp add: bitlen_le_iff_power)
    with nonpos False show ?thesis by (simp add: ilog2_def n_def)
  qed
qed

text \<open>A multiple of \<open>2^(-k)\<close> with fewer than 54 significant bits is a float.\<close>

lemma round_double_grid:
  assumes m: "m < 2 ^ 53" and k: "k \<le> 1074"
  shows "round_double (of_nat m / 2 ^ k) = Finite (of_nat m / 2 ^ k)"
proof (cases "m = 0")
  case True
  then show ?thesis by (simp add: round_double_def)
next
  case False
  define a :: rat where "a = of_nat m / 2 ^ k"
  define e where "e = max (ilog2 a - 52) (- 1074)"
  from False have pos: "0 < a" by (simp add: a_def)
  have m': "(of_nat m :: rat) < 2 ^ 53"
    using m by (metis of_nat_less_iff of_nat_numeral of_nat_power)
  have "a < pow2 (53 - int k)"
  proof -
    from m' have "a < 2 ^ 53 / 2 ^ k" by (simp add: a_def divide_strict_right_mono)
    also have "(2 ^ 53 / 2 ^ k :: rat) = pow2 (53 - int k)"
      by (cases "k \<le> 53") (simp_all add: pow2_def power_diff nat_diff_distrib' field_simps flip: power_add)
    finally show ?thesis .
  qed
  with pos have "ilog2 a < 53 - int k" by (rule ilog2_less)
  with k have e: "e \<le> - int k" by (simp add: e_def)
  define n where "n = nat (- int k - e)"
  from e have pe: "pow2 e = 1 / 2 ^ (k + n)"
    by (cases "e = 0") (simp_all add: pow2_def n_def nat_add_distrib flip: nat_int_add)
  have scaled: "a / pow2 e = of_int (int (m * 2 ^ n))"
    by (simp add: pe a_def power_add)
  have unscaled: "of_int (int (m * 2 ^ n)) * pow2 e = a"
    by (simp add: pe a_def power_add)
  have "a \<le> of_nat m"
    by (simp add: a_def divide_le_eq mult_le_cancel_left1)
  also note m'
  also have "(2 ^ 53 :: rat) < pow2 1024" by (simp add: pow2_def)
  finally have small: "\<not> pow2 1024 \<le> a" by simp
  have "round_double a = Finite a"
    using pos small
    by (simp add: round_double_def Let_def scaled unscaled flip: e_def del: of_int_of_nat_eq of_nat_mult of_nat_power)
  then show ?thesis by (simp only: a_def)
qed

lemma round_double_of_nat: "n < 2 ^ 53 \<Longrightarrow> round_double (of_nat n) = Finite (of_nat n)"
  using round_double_grid [of n 0] by simp

lemma float_of_nat_exact: "n < 2 ^ 53 \<Longrightarrow> float_of_nat n = Finite (of_nat n)"
  by (simp add: float_of_nat_def round_double_of_nat)

lemma on_grid_Finite: "on_grid k (Finite q) = (0 \<le> q \<and> of_int \<lfloor>q * 2 ^ k\<rfloor> = q * 2 ^ k)"
  by (simp add: on_grid_def)

lemma on_grid_value: "on_grid k x \<Longrightarrow> x = Finite (float_value x)"
  by (cases x) (simp_all add: on_grid_def)

lemma on_grid_Finite_value: "on_grid k x \<Longrightarrow> on_grid k (Finite (float_value x))"
  by (cases x) (simp_all add: on_grid_def)

lemma on_grid_zero [simp]: "on_grid k (Finite 0)"
  by (simp add: on_grid_def)

lemma round_double_on_grid:
  assumes "k \<le> 1074" and "on_grid k (Finite q)" and "q * 2 ^ k < 2 ^ 53"
  shows "round_double q = Finite q"
proof -
  define m where "m = nat \<lfloor>q * 2 ^ k\<rfloor>"
  from assms(2) have q: "0 \<le> q" and int: "of_int \<lfloor>q * 2 ^ k\<rfloor> = q * 2 ^ k"
    by (simp_all add: on_grid_Finite)
  from q have "0 \<le> \<lfloor>q * 2 ^ k\<rfloor>" by simp
  then have "(of_nat m :: rat) = of_int \<lfloor>q * 2 ^ k\<rfloor>"
    unfolding m_def by (metis of_int_of_nat_eq int_nat_eq)
  with int have m: "of_nat m = q * 2 ^ k" by simp
  with assms(3) have "(of_nat m :: rat) < of_nat (2 ^ 53)" by simp
  then have "m < 2 ^ 53" by (simp only: of_nat_less_iff)
  from round_double_grid [OF this assms(1)] m show ?thesis by simp
qed

lemma on_grid_add:
  "on_grid k (Finite a) \<Longrightarrow> on_grid k (Finite b) \<Longrightarrow> on_grid k (Finite (a + b))"
proof -
  assume "on_grid k (Finite a)" and "on_grid k (Finite b)"
  then have a: "0 \<le> a" "of_int \<lfloor>a * 2 ^ k\<rfloor> = a * 2 ^ k"
    and b: "0 \<le> b" "of_int \<lfloor>b * 2 ^ k\<rfloor> = b * 2 ^ k"
    by (simp_all add: on_grid_Finite)
  have "(a + b) * 2 ^ k = of_int (\<lfloor>a * 2 ^ k\<rfloor> + \<lfloor>b * 2 ^ k\<rfloor>)"
    by (simp only: of_int_add a(2) b(2) distrib_right)
  then have "of_int \<lfloor>(a + b) * 2 ^ k\<rfloor> = (a + b) * 2 ^ k"
    by (simp only: floor_of_int)
  with a(1) b(1) show ?thesis by (simp add: on_grid_Finite)
qed

lemma on_grid_sum_list:
  "\<forall>v\<in>set vs. on_grid k (Finite v) \<Longrightarrow> on_grid k (Finite (sum_list vs))"
  by (induction vs) (simp_all add: on_grid_add)

lemma on_grid_nonneg: "on_grid k (Finite q) \<Longrightarrow> 0 \<le> q"
  by (simp add: on_grid_Finite)

lemma float_add_on_grid:
  assumes "k \<le> 1074" and "on_grid k (Finite a)" and "on_grid k (Finite b)"
    and "(a + b) * 2 ^ k < 2 ^ 53"
  shows "float_add (Finite a) (Finite b) = Finite (a + b)"
  using round_double_on_grid [OF assms(1) on_grid_add [OF assms(2,3)] assms(4)]
  by (simp add: float_add_def)

lemma foldl_float_add_on_grid:
  assumes k: "k \<le> 1074"
  shows "on_grid k (Finite b) \<Longrightarrow> \<forall>v\<in>set vs. on_grid k (Finite v) \<Longrightarrow>
         (b + sum_list vs) * 2 ^ k < 2 ^ 53 \<Longrightarrow>
         foldl float_add (Finite b) (map Finite vs) = Finite (b + sum_list vs)"
proof (induction vs arbitrary: b)
  case Nil
  show ?case by simp
next
  case (Cons v vs)
  from Cons.prems have gb: "on_grid k (Finite b)" and gv: "on_grid k (Finite v)"
    and gvs: "\<forall>v\<in>set vs. on_grid k (Finite v)"
    by simp_all
  from gvs have "0 \<le> sum_list vs"
    by (intro on_grid_nonneg [of k] on_grid_sum_list)
  then have "(b + v) * 2 ^ k \<le> (b + sum_list (v # vs)) * 2 ^ k"
    by (simp add: mult_right_mono)
  from this Cons.prems(3) have small: "(b + v) * 2 ^ k < 2 ^ 53"
    by (rule le_less_trans)
  have "float_add (Finite b) (Finite v) = Finite (b + v)"
    using k gb gv small by (rule float_add_on_grid)
  moreover have "foldl float_add (Finite (b + v)) (map Finite vs) = Finite (b + v + sum_list vs)"
    using on_grid_add [OF gb gv] gvs Cons.prems(3) by (intro Cons.IH) (simp_all add: ac_simps)
  ultimately show ?case by (simp add: ac_simps)
qed

lemma float_sum_on_grid:
  "k \<le> 1074 \<Longrightarrow> \<forall>v\<in>set vs. on_grid k (Finite v) \<Longrightarrow> sum_list vs * 2 ^ k < 2 ^ 53 \<Longrightarrow>
   float_sum (map Finite vs) = Finite (sum_list vs)"
  using foldl_float_add_on_grid [of k 0 vs] by (simp add: float_sum_def)

text \<open>Evaluation of the arithmetic on numerals.\<close>

lemma round_double_zero [simp]: "round_double 0 = Finite 0"
  by (simp add: round_double_def)

lemma round_double_one [simp]: "round_double 1 = Finite 1"
  using round_double_of_nat [of 1] by simp

lemma round_double_numeral:
  "(numeral w :: nat) < 2 ^ 53 \<Longrightarrow> round_double (numeral w) = Finite (numeral w)"
  using round_double_of_nat [of "numeral w"] by simp

lemma round_double_half [simp]: "round_double (1 / 2) = Finite (1 / 2)"
  using round_double_grid [of 1 1] by simp

lemma float_add_Finite [simp]: "float_add (Finite a) (Finite b) = round_double (a + b)"
  by (simp add: float_add_def)

lemma float_div_count_Finite:
  "n < 2 ^ 53 \<Longrightarrow> float_div_count (Finite q) n = round_double (q / of_nat n)"
  by (simp add: float_div_count_def float_of_nat_exact)

lemma bitlen_numeral [simp]: "bitlen (numeral n) = bitlen (numeral n div 2) + 1"
  by (subst compute_bitlen) simp

lemma bitlen_one [simp]: "bitlen 1 = 1"
  by (subst compute_bitlen) simp

lemma floor_numeral_quotient [simp]:
  "\<lfloor>numeral a / numeral b :: rat\<rfloor> = numeral a div numeral b"
  by (metis floor_divide_of_int_eq of_int_numeral)

lemma floor_one_quotient [simp]:
  "\<lfloor>1 / numeral b :: rat\<rfloor> = 1 div numeral b"
  by (metis floor_divide_of_int_eq of_int_numeral of_int_1)

lemma ceiling_numeral_quotient [simp]:
  "\<lceil>numeral a / numeral b :: rat\<rceil> = - (- numeral a div numeral b)"
  by (metis ceiling_def floor_divide_of_int_eq minus_divide_left of_int_minus of_int_numeral)

lemmas float_eval = round_double_def ilog2_def pow2_def round_half_even_def Let_def float_add_def
  float_div_count_def float_of_nat_def

subsection \<open>Field assignments\<close>

lemma set_children_sel [simp]:
  "children (set_children cs n) = cs"
  "token_id (set_children cs n) = token_id n"
  "unique_id (set_children cs n) = unique_id n"
  "is_end_of_completion (set_children cs n) = is_end_of_completion n"
  "score (set_children cs n) = score n"
  "count (set_children cs n) = count n"
  "structural_hash (set_children cs n) = structural_hash n"
  "descendant_leaf_count (set_children cs n) = descendant_leaf_count n"
  "descendant_score_sum (set_children cs n) = descendant_score_sum n"
  by (case_tac [!] n) (simp_all split: option.splits)

lemma set_count_sel [simp]:
  "children (set_count k n) = children n"
  "token_id (set_count k n) = token_id n"
  "unique_id (set_count k n) = unique_id n"
  "is_end_of_completion (set_count k n) = is_end_of_completion n"
  "score (set_count k n) = score n"
  "count (set_count k n) = k"
  "structural_hash (set_count k n) = structural_hash n"
  "descendant_leaf_count (set_count k n) = descendant_leaf_count n"
  "descendant_score_sum (set_count k n) = descendant_score_sum n"
  by (case_tac [!] n) (simp_all split: option.splits)

lemma set_structural_hash_sel [simp]:
  "children (set_structural_hash h n) = children n"
  "token_id (set_structural_hash h n) = token_id n"
  "unique_id (set_structural_hash h n) = unique_id n"
  "is_end_of_completion (set_structural_hash h n) = is_end_of_completion n"
  "score (set_structural_hash h n) = score n"
  "count (set_structural_hash h n) = count n"
  "structural_hash (set_structural_hash h n) = h"
  "descendant_leaf_count (set_structural_hash h n) = descendant_leaf_count n"
  "descendant_score_sum (set_structural_hash h n) = descendant_score_sum n"
  by (case_tac [!] n) (simp_all split: option.splits)

lemma set_leaf_stats_sel [simp]:
  "children (set_leaf_stats l s n) = children n"
  "token_id (set_leaf_stats l s n) = token_id n"
  "unique_id (set_leaf_stats l s n) = unique_id n"
  "is_end_of_completion (set_leaf_stats l s n) = is_end_of_completion n"
  "score (set_leaf_stats l s n) = score n"
  "count (set_leaf_stats l s n) = count n"
  "structural_hash (set_leaf_stats l s n) = structural_hash n"
  "descendant_leaf_count (set_leaf_stats l s n) = l"
  "descendant_score_sum (set_leaf_stats l s n) = s"
  by (case_tac [!] n) (simp_all split: option.splits)

lemma mark_end_sel [simp]:
  "children (mark_end sc n) = children n"
  "token_id (mark_end sc n) = token_id n"
  "unique_id (mark_end sc n) = unique_id n"
  "is_end_of_completion (mark_end sc n) = True"
  "score (mark_end sc n) = (case sc of None \<Rightarrow> score n | Some s \<Rightarrow> Some s)"
  "count (mark_end sc n) = count n"
  "structural_hash (mark_end sc n) = structural_hash n"
  "descendant_leaf_count (mark_end sc n) = descendant_leaf_count n"
  "descendant_score_sum (mark_end sc n) = descendant_score_sum n"
  by (case_tac [!] n) (simp_all split: option.splits)

lemma TreeNode_sel [simp]:
  "children (TreeNode tok uid) = []"
  "token_id (TreeNode tok uid) = tok"
  "unique_id (TreeNode tok uid) = uid"
  "is_end_of_completion (TreeNode tok uid) = False"
  "score (TreeNode tok uid) = None"
  "count (TreeNode tok uid) = 0"
  "structural_hash (TreeNode tok uid) = None"
  "descendant_leaf_count (TreeNode tok uid) = 0"
  "descendant_score_sum (TreeNode tok uid) = Finite 0"
  by (simp_all add: TreeNode_def)

subsection \<open>The two passes on a node given by its fields\<close>

lemma compute_structural_hashes_Node [simp]:
  "compute_structural_hashes H (Node tok uid cs e sc cnt (Some h) dlc dss) =
     (Node tok uid cs e sc cnt (Some h) dlc dss, h)"
  "compute_structural_hashes H (Node tok uid cs e sc cnt None dlc dss) =
     (let child_hashes = map (\<lambda>p. (fst p, snd (compute_structural_hashes H (snd p)))) (sort_key fst cs);
          h = H (tok, e, (if e then sc else None), child_hashes)
      in (Node tok uid (map (\<lambda>p. (fst p, fst (compute_structural_hashes H (snd p)))) cs)
            e sc cnt (Some h) dlc dss, h))"
  by (simp_all add: compute_structural_hashes.simps [of H "Node tok uid cs e sc cnt sh dlc dss" for sh] Let_def)

lemma compute_leaf_stats_Node [simp]:
  "compute_leaf_stats (Node tok uid cs True sc cnt sh dlc dss) =
     (Node tok uid cs True sc cnt sh 1 (case sc of Some s \<Rightarrow> s | None \<Rightarrow> Finite 0),
      (1, (case sc of Some s \<Rightarrow> s | None \<Rightarrow> Finite 0)))"
  "compute_leaf_stats (Node tok uid cs False sc cnt sh dlc dss) =
     (let results = map (\<lambda>p. (fst p, compute_leaf_stats (snd p))) cs;
          totals = fold (\<lambda>r acc. (fst acc + fst (snd (snd r)), float_add (snd acc) (snd (snd (snd r)))))
                      results (0, Finite 0)
      in (Node tok uid (map (\<lambda>r. (fst r, fst (snd r))) results) False sc cnt sh (fst totals) (snd totals),
          totals))"
  by (simp_all add: compute_leaf_stats.simps [of "Node tok uid cs e sc cnt sh dlc dss" for e] Let_def)

subsection \<open>Insertion, observed along paths\<close>

lemma score_at_Nil [simp]: "score_at n [] = score n"
  by (simp add: score_at_def)

lemma end_at_Nil [simp]: "end_at n [] = is_end_of_completion n"
  by (simp add: end_at_def)

lemma score_at_Cons: "score_at n (t # p) = (case map_of (children n) t of None \<Rightarrow> None | Some c \<Rightarrow> score_at c p)"
  by (simp add: score_at_def split: option.splits)

lemma end_at_Cons: "end_at n (t # p) = (case map_of (children n) t of None \<Rightarrow> False | Some c \<Rightarrow> end_at c p)"
  by (simp add: end_at_def split: option.splits)


lemma fst_insert_tokens_Cons:
  "fst (insert_tokens (t # ts) sc n nid) =
     set_children
       (AList.update t
          (fst (insert_tokens ts sc
             (set_count (count (fst (child_for n t nid)) + 1) (fst (child_for n t nid)))
             (snd (child_for n t nid))))
          (children n)) n"
  by (simp add: Let_def split: prod.splits)

declare insert_tokens.simps(2) [simp del]

lemma score_at_set_count [simp]: "score_at (set_count k n) p = score_at n p"
  by (cases p) (simp_all add: score_at_Cons)

lemma end_at_set_count [simp]: "end_at (set_count k n) p = end_at n p"
  by (cases p) (simp_all add: end_at_Cons)

lemma score_at_TreeNode [simp]: "score_at (TreeNode tok uid) p = None"
  by (cases p) (simp_all add: score_at_Cons)

lemma end_at_TreeNode [simp]: "end_at (TreeNode tok uid) p = False"
  by (cases p) (simp_all add: end_at_Cons)

lemma score_at_child_for:
  "score_at (fst (child_for n t nid)) q = score_at n (t # q)"
  by (simp add: child_for_def score_at_Cons split: option.splits)

lemma end_at_child_for:
  "end_at (fst (child_for n t nid)) q = end_at n (t # q)"
  by (simp add: child_for_def end_at_Cons split: option.splits)

lemma score_at_insert_tokens:
  "score_at (fst (insert_tokens ts sc n nid)) p =
     (if p = ts \<and> sc \<noteq> None then sc else score_at n p)"
proof (induction ts arbitrary: n nid p)
  case Nil
  show ?case
    by (cases p) (auto simp: score_at_Cons split: option.splits)
next
  case (Cons t ts)
  show ?case
  proof (cases p)
    case Nil
    then show ?thesis by (simp add: fst_insert_tokens_Cons)
  next
    case (Cons u q)
    show ?thesis
    proof (cases "u = t")
      case True
      then show ?thesis
        by (auto simp add: Cons fst_insert_tokens_Cons score_at_Cons [of _ t q] update_conv' Cons.IH score_at_child_for)
    next
      case False
      then show ?thesis
        by (simp add: Cons fst_insert_tokens_Cons score_at_Cons [of _ u q] update_conv')
    qed
  qed
qed

lemma end_at_insert_tokens:
  "end_at (fst (insert_tokens ts sc n nid)) p = (p = ts \<or> end_at n p)"
proof (induction ts arbitrary: n nid p)
  case Nil
  show ?case
    by (cases p) (auto simp: end_at_Cons split: option.splits)
next
  case (Cons t ts)
  show ?case
  proof (cases p)
    case Nil
    then show ?thesis by (simp add: fst_insert_tokens_Cons)
  next
    case (Cons u q)
    show ?thesis
    proof (cases "u = t")
      case True
      then show ?thesis
        by (simp add: Cons fst_insert_tokens_Cons end_at_Cons [of _ t q] update_conv' Cons.IH end_at_child_for)
    next
      case False
      then show ?thesis
        by (simp add: Cons fst_insert_tokens_Cons end_at_Cons [of _ u q] update_conv')
    qed
  qed
qed

subsection \<open>The construction loop, observed along paths\<close>

lemma score_for_score_list:
  "score_for scores i = (if i < length (score_list scores) then Some (score_list scores ! i) else None)"
  by (simp add: score_for_def score_list_def split: option.splits)

lemma build_loop_append:
  "build_loop scores i (xs @ ys) st = build_loop scores (i + length xs) ys (build_loop scores i xs st)"
  by (induction xs arbitrary: i st) simp_all

lemma build_loop_snoc:
  "build_loop scores 0 (cs @ [c]) st =
     insert_tokens c (score_for scores (length cs))
       (fst (build_loop scores 0 cs st)) (snd (build_loop scores 0 cs st))"
  by (simp add: build_loop_append)

lemma scored_indices_snoc:
  "scored_indices (cs @ [c]) scores p =
     scored_indices cs scores p @
       (if length cs < length (score_list scores) \<and> c = p then [length cs] else [])"
proof -
  have same: "filter (\<lambda>j. (cs @ [c]) ! j = p) [0 ..< k] = filter (\<lambda>j. cs ! j = p) [0 ..< k]"
    if "k \<le> length cs" for k
    using that by (intro filter_cong) (auto simp: nth_append)
  show ?thesis
  proof (cases "length cs < length (score_list scores)")
    case True
    then have "min (length (cs @ [c])) (length (score_list scores)) = Suc (length cs)"
      and "min (length cs) (length (score_list scores)) = length cs"
      by simp_all
    then show ?thesis
      using True same [of "length cs"] by (simp add: scored_indices_def)
  next
    case False
    then have "min (length (cs @ [c])) (length (score_list scores)) = length (score_list scores)"
      and "min (length cs) (length (score_list scores)) = length (score_list scores)"
      by simp_all
    then show ?thesis
      using False same [of "length (score_list scores)"] by (simp add: scored_indices_def)
  qed
qed

lemma score_at_build_loop:
  "score_at (fst (build_loop scores 0 cs st)) p =
     (if scored_indices cs scores p = [] then score_at (fst st) p
      else Some (score_list scores ! last (scored_indices cs scores p)))"
proof (induction cs rule: rev_induct)
  case Nil
  show ?case by (simp add: scored_indices_def)
next
  case (snoc c cs)
  show ?case
    unfolding build_loop_snoc score_at_insert_tokens scored_indices_snoc snoc.IH
    by (simp add: score_for_score_list)
qed

lemma end_at_build_loop:
  "end_at (fst (build_loop scores i cs st)) p = (p \<in> set cs \<or> end_at (fst st) p)"
  by (induction cs arbitrary: i st) (auto simp: end_at_insert_tokens)

lemma end_at_node_at:
  "end_at n p = (\<exists>m. node_at n p = Some m \<and> is_end_of_completion m)"
  by (simp add: end_at_def split: option.splits)

lemma score_at_node_at: "node_at n p = Some m \<Longrightarrow> score_at n p = score m"
  by (simp add: score_at_def)

subsection \<open>Counts along paths\<close>

lemma count_at_Nil [simp]: "count_at n [] = count n"
  by (simp add: count_at_def)

lemma kids_at_Nil [simp]: "kids_at n [] = child_count_sum n"
  by (simp add: kids_at_def)

lemma count_at_Cons:
  "count_at n (t # p) = (case map_of (children n) t of None \<Rightarrow> 0 | Some c \<Rightarrow> count_at c p)"
  by (simp add: count_at_def split: option.splits)

lemma kids_at_Cons:
  "kids_at n (t # p) = (case map_of (children n) t of None \<Rightarrow> 0 | Some c \<Rightarrow> kids_at c p)"
  by (simp add: kids_at_def split: option.splits)

lemma count_at_set_count: "count_at (set_count k n) p = (if p = [] then k else count_at n p)"
  by (cases p) (simp_all add: count_at_Cons)

lemma kids_at_set_count [simp]: "kids_at (set_count k n) p = kids_at n p"
  by (cases p) (simp_all add: kids_at_Cons child_count_sum_def)

lemma count_at_child_for:
  "count_at (fst (child_for n t nid)) q = count_at n (t # q)"
  by (cases q) (simp_all add: child_for_def count_at_Cons split: option.splits)

lemma kids_at_child_for:
  "kids_at (fst (child_for n t nid)) q = kids_at n (t # q)"
  by (cases q) (simp_all add: child_for_def kids_at_Cons child_count_sum_def split: option.splits)

lemma count_child_for:
  "count (fst (child_for n t nid)) = (case map_of (children n) t of None \<Rightarrow> 0 | Some c \<Rightarrow> count c)"
  by (simp add: child_for_def split: option.splits)

lemma count_insert_tokens [simp]: "count (fst (insert_tokens ts sc n nid)) = count n"
  by (cases ts) (simp_all add: fst_insert_tokens_Cons)

lemma count_at_insert_tokens:
  "count_at (fst (insert_tokens ts sc n nid)) p =
     count_at n p + (if p \<noteq> [] \<and> prefix p ts then 1 else 0)"
proof (induction ts arbitrary: n nid p)
  case Nil
  show ?case
    by (cases p) (simp_all add: count_at_Cons)
next
  case (Cons t ts)
  show ?case
  proof (cases p)
    case Nil
    then show ?thesis by simp
  next
    case (Cons u q)
    show ?thesis
    proof (cases "u = t")
      case True
      then show ?thesis
        by (simp add: Cons fst_insert_tokens_Cons count_at_Cons [of _ t q] update_conv' Cons.IH
            count_at_set_count count_at_child_for count_child_for split: option.splits)
    next
      case False
      then show ?thesis
        by (simp add: Cons fst_insert_tokens_Cons count_at_Cons [of _ u q] update_conv')
    qed
  qed
qed

lemma sum_list_update:
  "sum_list (map (\<lambda>kc. f (snd kc)) (AList.update k v al))
     + (case map_of al k of None \<Rightarrow> 0 | Some v0 \<Rightarrow> f v0)
   = sum_list (map (\<lambda>kc. f (snd kc)) al) + (f v :: nat)"
  by (induction al) auto

lemma child_count_sum_insert_tokens:
  "child_count_sum (fst (insert_tokens ts sc n nid)) =
     child_count_sum n + (if ts = [] then 0 else 1)"
proof (cases ts)
  case Nil
  then show ?thesis by (simp add: child_count_sum_def)
next
  case (Cons t ts')
  let ?c = "fst (child_for n t nid)"
  let ?c' = "fst (insert_tokens ts' sc (set_count (count ?c + 1) ?c) (snd (child_for n t nid)))"
  have old: "(case map_of (children n) t of None \<Rightarrow> 0 | Some v0 \<Rightarrow> count v0) = count ?c"
    by (simp add: child_for_def split: option.splits)
  have "count ?c' = count ?c + 1" by simp
  with sum_list_update [of count t ?c' "children n"] old
  show ?thesis
    by (simp add: Cons fst_insert_tokens_Cons child_count_sum_def)
qed

lemma kids_at_insert_tokens:
  "kids_at (fst (insert_tokens ts sc n nid)) p =
     kids_at n p + (if strict_prefix p ts then 1 else 0)"
proof (induction ts arbitrary: n nid p)
  case Nil
  show ?case
    by (cases p) (simp_all add: kids_at_Cons child_count_sum_def)
next
  case (Cons t ts)
  show ?case
  proof (cases p)
    case Nil
    then show ?thesis by (simp add: child_count_sum_insert_tokens)
  next
    case (Cons u q)
    show ?thesis
    proof (cases "u = t")
      case True
      then show ?thesis
        by (simp add: Cons fst_insert_tokens_Cons kids_at_Cons [of _ t q] update_conv' Cons.IH
            kids_at_child_for)
    next
      case False
      then show ?thesis
        by (simp add: Cons fst_insert_tokens_Cons kids_at_Cons [of _ u q] update_conv')
    qed
  qed
qed

lemma count_at_build_loop:
  "count_at (fst (build_loop scores i cs st)) p =
     count_at (fst st) p + (if p = [] then 0 else length (filter (prefix p) cs))"
  by (induction cs arbitrary: i st) (simp_all add: count_at_insert_tokens)

lemma kids_at_build_loop:
  "kids_at (fst (build_loop scores i cs st)) p =
     kids_at (fst st) p + length (filter (strict_prefix p) cs)"
  by (induction cs arbitrary: i st) (simp_all add: kids_at_insert_tokens)

lemma prefix_split_count:
  "length (filter (prefix p) cs) = length (filter (strict_prefix p) cs) + count_list cs p"
  by (induction cs) (auto simp: strict_prefix_def)

lemma count_at_TreeNode [simp]: "count_at (TreeNode tok uid) p = 0"
  by (cases p) (simp_all add: count_at_Cons)

lemma kids_at_TreeNode [simp]: "kids_at (TreeNode tok uid) p = 0"
  by (cases p) (simp_all add: kids_at_Cons child_count_sum_def)

lemma count_at_build_tree:
  "count_at (fst (build_tree cs scores nid)) p = length (filter (prefix p) cs)"
  by (simp add: build_tree_def count_at_build_loop count_at_set_count)

lemma kids_at_build_tree:
  "kids_at (fst (build_tree cs scores nid)) p = length (filter (strict_prefix p) cs)"
  by (simp add: build_tree_def kids_at_build_loop)

subsection \<open>The passes keep the constructed fields\<close>

lemma map_of_map_value:
  "map_of (map (\<lambda>kc. (fst kc, f (snd kc))) xs) k = map_option f (map_of xs k)"
  by (induction xs) auto

lemma children_compute_structural_hashes:
  "children (fst (compute_structural_hashes H n)) =
     (case structural_hash n of
        Some h \<Rightarrow> children n
      | None \<Rightarrow> map (\<lambda>kc. (fst kc, fst (compute_structural_hashes H (snd kc)))) (children n))"
  by (simp add: compute_structural_hashes.simps [of H n] Let_def split: option.splits)

lemma fields_compute_structural_hashes [simp]:
  "token_id (fst (compute_structural_hashes H n)) = token_id n"
  "unique_id (fst (compute_structural_hashes H n)) = unique_id n"
  "is_end_of_completion (fst (compute_structural_hashes H n)) = is_end_of_completion n"
  "score (fst (compute_structural_hashes H n)) = score n"
  "count (fst (compute_structural_hashes H n)) = count n"
  "descendant_leaf_count (fst (compute_structural_hashes H n)) = descendant_leaf_count n"
  "descendant_score_sum (fst (compute_structural_hashes H n)) = descendant_score_sum n"
  by (simp_all add: compute_structural_hashes.simps [of H n] Let_def split: option.splits)

lemma children_compute_leaf_stats:
  "children (fst (compute_leaf_stats n)) =
     (if is_end_of_completion n then children n
      else map (\<lambda>kc. (fst kc, fst (compute_leaf_stats (snd kc)))) (children n))"
  by (simp add: compute_leaf_stats.simps [of n] Let_def comp_def)

lemma fields_compute_leaf_stats [simp]:
  "token_id (fst (compute_leaf_stats n)) = token_id n"
  "unique_id (fst (compute_leaf_stats n)) = unique_id n"
  "is_end_of_completion (fst (compute_leaf_stats n)) = is_end_of_completion n"
  "score (fst (compute_leaf_stats n)) = score n"
  "count (fst (compute_leaf_stats n)) = count n"
  by (simp_all add: compute_leaf_stats.simps [of n] Let_def)

lemma child_count_sum_compute_structural_hashes [simp]:
  "child_count_sum (fst (compute_structural_hashes H n)) = child_count_sum n"
  by (simp add: child_count_sum_def children_compute_structural_hashes comp_def split: option.splits)

lemma child_count_sum_compute_leaf_stats [simp]:
  "child_count_sum (fst (compute_leaf_stats n)) = child_count_sum n"
  by (simp add: child_count_sum_def children_compute_leaf_stats comp_def)

lemma count_at_compute_structural_hashes [simp]:
  "count_at (fst (compute_structural_hashes H n)) p = count_at n p"
proof (induction p arbitrary: n)
  case Nil
  show ?case by simp
next
  case (Cons t q)
  show ?case
    by (cases "structural_hash n"; cases "map_of (children n) t")
       (simp_all add: count_at_Cons children_compute_structural_hashes
         map_of_map_value [of "\<lambda>c. fst (compute_structural_hashes H c)"] Cons.IH)
qed

lemma kids_at_compute_structural_hashes [simp]:
  "kids_at (fst (compute_structural_hashes H n)) p = kids_at n p"
proof (induction p arbitrary: n)
  case Nil
  show ?case by simp
next
  case (Cons t q)
  show ?case
    by (cases "structural_hash n"; cases "map_of (children n) t")
       (simp_all add: kids_at_Cons children_compute_structural_hashes
         map_of_map_value [of "\<lambda>c. fst (compute_structural_hashes H c)"] Cons.IH)
qed

lemma count_at_compute_leaf_stats [simp]:
  "count_at (fst (compute_leaf_stats n)) p = count_at n p"
proof (induction p arbitrary: n)
  case Nil
  show ?case by simp
next
  case (Cons t q)
  show ?case
    by (cases "is_end_of_completion n"; cases "map_of (children n) t")
       (simp_all add: count_at_Cons children_compute_leaf_stats
         map_of_map_value [of "\<lambda>c. fst (compute_leaf_stats c)"] Cons.IH)
qed

lemma kids_at_compute_leaf_stats [simp]:
  "kids_at (fst (compute_leaf_stats n)) p = kids_at n p"
proof (induction p arbitrary: n)
  case Nil
  show ?case by simp
next
  case (Cons t q)
  show ?case
    by (cases "is_end_of_completion n"; cases "map_of (children n) t")
       (simp_all add: kids_at_Cons children_compute_leaf_stats
         map_of_map_value [of "\<lambda>c. fst (compute_leaf_stats c)"] Cons.IH)
qed

lemma root_CompletionTree:
  "root (CompletionTree H completions scores) =
     fst (compute_leaf_stats (fst (compute_structural_hashes H (fst (build_tree completions scores 0)))))"
  by (simp add: CompletionTree_def Let_def)

lemma score_at_compute_structural_hashes [simp]:
  "score_at (fst (compute_structural_hashes H n)) p = score_at n p"
proof (induction p arbitrary: n)
  case Nil
  show ?case by simp
next
  case (Cons t q)
  show ?case
    by (cases "structural_hash n"; cases "map_of (children n) t")
       (simp_all add: score_at_Cons children_compute_structural_hashes
         map_of_map_value [of "\<lambda>c. fst (compute_structural_hashes H c)"] Cons.IH)
qed

lemma end_at_compute_structural_hashes [simp]:
  "end_at (fst (compute_structural_hashes H n)) p = end_at n p"
proof (induction p arbitrary: n)
  case Nil
  show ?case by simp
next
  case (Cons t q)
  show ?case
    by (cases "structural_hash n"; cases "map_of (children n) t")
       (simp_all add: end_at_Cons children_compute_structural_hashes
         map_of_map_value [of "\<lambda>c. fst (compute_structural_hashes H c)"] Cons.IH)
qed

lemma score_at_compute_leaf_stats [simp]:
  "score_at (fst (compute_leaf_stats n)) p = score_at n p"
proof (induction p arbitrary: n)
  case Nil
  show ?case by simp
next
  case (Cons t q)
  show ?case
    by (cases "is_end_of_completion n"; cases "map_of (children n) t")
       (simp_all add: score_at_Cons children_compute_leaf_stats
         map_of_map_value [of "\<lambda>c. fst (compute_leaf_stats c)"] Cons.IH)
qed

lemma end_at_compute_leaf_stats [simp]:
  "end_at (fst (compute_leaf_stats n)) p = end_at n p"
proof (induction p arbitrary: n)
  case Nil
  show ?case by simp
next
  case (Cons t q)
  show ?case
    by (cases "is_end_of_completion n"; cases "map_of (children n) t")
       (simp_all add: end_at_Cons children_compute_leaf_stats
         map_of_map_value [of "\<lambda>c. fst (compute_leaf_stats c)"] Cons.IH)
qed

subsection \<open>Call depth\<close>

lemma fold_max_le: "fold max xs a \<le> (d::nat) \<longleftrightarrow> a \<le> d \<and> (\<forall>x\<in>set xs. x \<le> d)"
  by (induction xs arbitrary: a) auto

lemma height_le_Suc: "height n \<le> Suc d \<longleftrightarrow> (\<forall>p\<in>set (children n). height (snd p) \<le> d)"
  by (subst height.simps) (auto simp: fold_max_le)

lemma height_pos: "0 < height n"
  by (subst height.simps) simp

lemma limited_hashes:
  "unhashed n \<Longrightarrow>
   compute_structural_hashes_limited d H n =
     (if height n \<le> d then Inr (compute_structural_hashes H n) else Inl RecursionError)"
proof (induction d arbitrary: n)
  case 0
  then show ?case using height_pos [of n] by simp
next
  case (Suc d)
  from Suc.prems have none: "structural_hash n = None"
    and kids: "\<forall>p\<in>set (children n). unhashed (snd p)"
    by (simp_all add: unhashed.simps [of n] list_all_iff)
  have each: "compute_structural_hashes_limited d H (snd p) =
      (if height (snd p) \<le> d then Inr (compute_structural_hashes H (snd p)) else Inl RecursionError)"
    if "p \<in> set (children n)" for p
    using Suc.IH kids that by blast
  show ?case
  proof (cases "height n \<le> Suc d")
    case True
    then have ok: "\<forall>p\<in>set (children n). height (snd p) \<le> d"
      by (simp add: height_le_Suc)
    with each have eq: "compute_structural_hashes_limited d H (snd p) = Inr (compute_structural_hashes H (snd p))"
      if "p \<in> set (children n)" for p
      using that by simp
    have m1: "map (\<lambda>p. (fst p, snd (projr (compute_structural_hashes_limited d H (snd p))))) (sort_key fst (children n))
        = map (\<lambda>p. (fst p, snd (compute_structural_hashes H (snd p)))) (sort_key fst (children n))"
      by (rule map_cong) (simp_all add: eq)
    have m2: "map (\<lambda>p. (fst p, fst (projr (compute_structural_hashes_limited d H (snd p))))) (children n)
        = map (\<lambda>p. (fst p, fst (compute_structural_hashes H (snd p)))) (children n)"
      by (rule map_cong) (simp_all add: eq)
    have no_err: "\<not> list_ex (\<lambda>p. isl (compute_structural_hashes_limited d H (snd p))) (sort_key fst (children n))"
      by (simp add: list_ex_iff eq)
    show ?thesis
      using True none no_err
      by (simp add: m1 m2 compute_structural_hashes.simps [of H n] Let_def)
  next
    case False
    then obtain p where p: "p \<in> set (children n)" "\<not> height (snd p) \<le> d"
      by (auto simp: height_le_Suc)
    with each have "isl (compute_structural_hashes_limited d H (snd p))" by simp
    with p(1) have "list_ex (\<lambda>p. isl (compute_structural_hashes_limited d H (snd p))) (sort_key fst (children n))"
      by (auto simp: list_ex_iff)
    then show ?thesis using False none by simp
  qed
qed

lemma limited_stats:
  "height n \<le> d \<Longrightarrow> compute_leaf_stats_limited d n = Inr (compute_leaf_stats n)"
proof (induction d arbitrary: n)
  case 0
  then show ?case using height_pos [of n] by simp
next
  case (Suc d)
  then have ok: "\<forall>p\<in>set (children n). height (snd p) \<le> d"
    by (simp add: height_le_Suc)
  with Suc.IH have eq: "compute_leaf_stats_limited d (snd p) = Inr (compute_leaf_stats (snd p))"
    if "p \<in> set (children n)" for p
    using that by blast
  have m: "map (\<lambda>p. (fst p, projr (compute_leaf_stats_limited d (snd p)))) (children n)
      = map (\<lambda>p. (fst p, compute_leaf_stats (snd p))) (children n)"
    by (rule map_cong) (simp_all add: eq)
  have no_err: "\<not> list_ex (\<lambda>p. isl (compute_leaf_stats_limited d (snd p))) (children n)"
    by (simp add: list_ex_iff eq)
  show ?case
    using no_err by (simp add: m compute_leaf_stats.simps [of n] Let_def)
qed


lemma fold_max_acc: "fold max xs (a::nat) = max a (fold max xs 0)"
proof (induction xs arbitrary: a)
  case Nil
  show ?case by simp
next
  case (Cons x xs)
  show ?case
    using Cons.IH [of "max x a"] Cons.IH [of "max x 0"] by simp
qed

lemma fold_max_update:
  "(\<And>v0. map_of al k = Some v0 \<Longrightarrow> f v0 \<le> f v) \<Longrightarrow>
   fold max (map (\<lambda>p. f (snd p)) (AList.update k v al)) 0 =
     max (fold max (map (\<lambda>p. f (snd p)) al) 0) (f v :: nat)"
proof (induction al)
  case Nil
  show ?case by simp
next
  case (Cons x al)
  show ?case
  proof (cases "fst x = k")
    case True
    with Cons.prems [of "snd x"] have "f (snd x) \<le> f v" by simp
    with True show ?thesis
      using fold_max_acc [of "map (\<lambda>p. f (snd p)) al" "f v"]
        fold_max_acc [of "map (\<lambda>p. f (snd p)) al" "f (snd x)"]
      by (cases x) simp
  next
    case False
    with Cons.prems have "fold max (map (\<lambda>p. f (snd p)) (AList.update k v al)) 0 =
        max (fold max (map (\<lambda>p. f (snd p)) al) 0) (f v)"
      by (intro Cons.IH) simp
    with False show ?thesis
      using fold_max_acc [of "map (\<lambda>p. f (snd p)) al" "f (snd x)"]
        fold_max_acc [of "map (\<lambda>p. f (snd p)) (AList.update k v al)" "f (snd x)"]
      by (cases x) simp
  qed
qed

lemma height_children_cong: "children n = children m \<Longrightarrow> height n = height m"
  by (simp add: height.simps [of n] height.simps [of m])

lemma height_set_count [simp]: "height (set_count k n) = height n"
  by (rule height_children_cong) simp

lemma height_mark_end [simp]: "height (mark_end sc n) = height n"
  by (rule height_children_cong) simp

lemma height_child_le: "map_of (children n) t = Some c \<Longrightarrow> Suc (height c) \<le> height n"
proof -
  assume "map_of (children n) t = Some c"
  then have mem: "(t, c) \<in> set (children n)" by (rule map_of_SomeD)
  obtain k where k: "height n = Suc k"
    using height_pos [of n] by (cases "height n") simp_all
  then have "height n \<le> Suc k" by simp
  then have "\<forall>p\<in>set (children n). height (snd p) \<le> k"
    by (simp only: height_le_Suc)
  with mem have "height c \<le> k" by force
  with k show ?thesis by simp
qed

lemma height_TreeNode [simp]: "height (TreeNode tok uid) = 1"
  by (simp add: height.simps [of "TreeNode tok uid"])

lemma height_insert_tokens:
  "height (fst (insert_tokens ts sc n nid)) = max (height n) (Suc (length ts))"
proof (induction ts arbitrary: n nid)
  case Nil
  show ?case using height_pos [of n] by simp
next
  case (Cons t ts)
  let ?c = "fst (child_for n t nid)"
  let ?e = "set_count (count ?c + 1) ?c"
  let ?c' = "fst (insert_tokens ts sc ?e (snd (child_for n t nid)))"
  have hc': "height ?c' = max (height ?c) (Suc (length ts))"
    by (simp add: Cons.IH)
  have mono: "height v0 \<le> height ?c'" if "map_of (children n) t = Some v0" for v0
    using that hc' by (simp add: child_for_def)
  have "height (fst (insert_tokens (t # ts) sc n nid)) =
      Suc (fold max (map (\<lambda>p. height (snd p)) (AList.update t ?c' (children n))) 0)"
    by (simp add: fst_insert_tokens_Cons height.simps [of "set_children _ _"])
  also have "\<dots> = Suc (max (fold max (map (\<lambda>p. height (snd p)) (children n)) 0) (height ?c'))"
    using fold_max_update [of "children n" t height ?c'] mono by simp
  also have "\<dots> = max (height n) (Suc (height ?c'))"
    by (simp add: height.simps [of n])
  also have "\<dots> = max (height n) (Suc (length (t # ts)))"
  proof (cases "map_of (children n) t")
    case None
    then have "height ?c = 1" by (simp add: child_for_def)
    with hc' show ?thesis by simp
  next
    case (Some c0)
    then have "?c = c0" by (simp add: child_for_def)
    with height_child_le [OF Some] hc' show ?thesis by simp
  qed
  finally show ?case .
qed

lemma height_build_loop:
  "height (fst (build_loop scores i cs st)) = max (height (fst st)) (Suc (fold max (map length cs) 0))"
proof (induction cs arbitrary: i st)
  case Nil
  show ?case using height_pos [of "fst st"] by simp
next
  case (Cons c cs)
  show ?case
    using fold_max_acc [of "map length cs" "length c"]
    by (simp add: Cons.IH height_insert_tokens)
qed

lemma height_build_tree:
  "height (fst (build_tree cs scores nid)) = Suc (fold max (map length cs) 0)"
proof -
  show ?thesis
    by (simp add: build_tree_def height_build_loop)
qed

lemma set_update_subset: "set (AList.update k v al) \<subseteq> insert (k, v) (set al)"
  by (induction al) auto

lemma unhashed_children_cong:
  "structural_hash n = structural_hash m \<Longrightarrow> children n = children m \<Longrightarrow> unhashed n = unhashed m"
  by (simp add: unhashed.simps [of n] unhashed.simps [of m])

lemma unhashed_set_count [simp]: "unhashed (set_count k n) = unhashed n"
  by (rule unhashed_children_cong) simp_all

lemma unhashed_mark_end [simp]: "unhashed (mark_end sc n) = unhashed n"
  by (rule unhashed_children_cong) simp_all

lemma unhashed_TreeNode [simp]: "unhashed (TreeNode tok uid)"
  by (simp add: unhashed.simps [of "TreeNode tok uid"])

lemma unhashed_child: "unhashed n \<Longrightarrow> map_of (children n) t = Some c \<Longrightarrow> unhashed c"
proof -
  assume "unhashed n" and "map_of (children n) t = Some c"
  then have "\<forall>p\<in>set (children n). unhashed (snd p)" and "(t, c) \<in> set (children n)"
    by (simp_all add: unhashed.simps [of n] list_all_iff map_of_SomeD)
  then show ?thesis by force
qed

lemma unhashed_insert_tokens:
  "unhashed n \<Longrightarrow> unhashed (fst (insert_tokens ts sc n nid))"
proof (induction ts arbitrary: n nid)
  case Nil
  with Nil show ?case by simp
next
  case (Cons t ts)
  let ?c = "fst (child_for n t nid)"
  let ?e = "set_count (count ?c + 1) ?c"
  let ?c' = "fst (insert_tokens ts sc ?e (snd (child_for n t nid)))"
  have "unhashed ?c"
    using Cons.prems unhashed_child [of n t] by (simp add: child_for_def split: option.splits)
  then have "unhashed ?c'"
    by (simp add: Cons.IH)
  moreover have "\<forall>p\<in>set (children n). unhashed (snd p)" "structural_hash n = None"
    using Cons.prems by (simp_all add: unhashed.simps [of n] list_all_iff)
  ultimately show ?case
    using set_update_subset [of t ?c' "children n"]
    by (auto simp: fst_insert_tokens_Cons unhashed.simps [of "set_children _ _"] list_all_iff)
qed

lemma unhashed_build_loop:
  "unhashed (fst st) \<Longrightarrow> unhashed (fst (build_loop scores i cs st))"
  by (induction cs arbitrary: i st) (simp_all add: unhashed_insert_tokens)

lemma unhashed_build_tree: "unhashed (fst (build_tree cs scores nid))"
proof -
  show ?thesis
    by (simp add: build_tree_def unhashed_build_loop)
qed

lemma height_compute_structural_hashes [simp]:
  "height (fst (compute_structural_hashes H n)) = height n"
proof (induction n rule: height.induct)
  case (1 n)
  show ?case
  proof (cases "structural_hash n")
    case None
    have "height (fst (compute_structural_hashes H n)) =
        Suc (fold max (map (\<lambda>p. height (snd p)) (children (fst (compute_structural_hashes H n)))) 0)"
      by (rule height.simps)
    also have "map (\<lambda>p. height (snd p)) (children (fst (compute_structural_hashes H n)))
        = map (\<lambda>p. height (fst (compute_structural_hashes H (snd p)))) (children n)"
      using None by (simp add: children_compute_structural_hashes comp_def)
    also have "\<dots> = map (\<lambda>p. height (snd p)) (children n)"
      by (rule map_cong) (simp_all add: "1.IH")
    also have "Suc (fold max \<dots> 0) = height n"
      by (rule height.simps [symmetric])
    finally show ?thesis .
  next
    case (Some h)
    then show ?thesis
      by (simp add: compute_structural_hashes.simps [of H n])
  qed
qed

lemma limited_hashes_build_tree:
  "compute_structural_hashes_limited d H (fst (build_tree cs scores nid)) =
     (if fold max (map length cs) 0 < d
      then Inr (compute_structural_hashes H (fst (build_tree cs scores nid)))
      else Inl RecursionError)"
  by (simp add: limited_hashes unhashed_build_tree height_build_tree Suc_le_eq)

lemma limited_stats_build_tree:
  "fold max (map length cs) 0 < d \<Longrightarrow>
   compute_leaf_stats_limited d (fst (compute_structural_hashes H (fst (build_tree cs scores nid)))) =
     Inr (compute_leaf_stats (fst (compute_structural_hashes H (fst (build_tree cs scores nid)))))"
  by (rule limited_stats) (simp add: height_build_tree Suc_le_eq)

subsection \<open>Fingerprints\<close>

lemma fingerprint_unhashed:
  "structural_hash n = None \<Longrightarrow>
   fingerprint H n =
     H (token_id n, is_end_of_completion n,
        (if is_end_of_completion n then score n else None),
        map (\<lambda>p. (fst p, fingerprint H (snd p))) (sort_key fst (children n)))"
  by (simp add: fingerprint_def compute_structural_hashes.simps [of H n] Let_def)

lemma structural_hash_compute_structural_hashes:
  "structural_hash (fst (compute_structural_hashes H n)) = Some (fingerprint H n)"
  by (simp add: fingerprint_def compute_structural_hashes.simps [of H n] Let_def split: option.splits)

lemma sorted_children_cong:
  assumes dx: "distinct (map fst xs)" and dy: "distinct (map fst ys)"
    and keys: "fst ` set xs = fst ` set ys"
    and vals: "\<And>k a b. map_of xs k = Some a \<Longrightarrow> map_of ys k = Some b \<Longrightarrow> f a = g b"
  shows "map (\<lambda>p. (fst p, f (snd p))) (sort_key fst xs) = map (\<lambda>p. (fst p, g (snd p))) (sort_key fst ys)"
proof -
  let ?sx = "sort_key fst xs" and ?sy = "sort_key fst ys"
  have "mset (map fst ?sx) = mset (map fst xs)" "mset (map fst ?sy) = mset (map fst ys)"
    by simp_all
  then have "distinct (map fst ?sx)" "distinct (map fst ?sy)"
    using dx dy mset_eq_imp_distinct_iff by blast+
  moreover have "sorted (map fst ?sx)" "sorted (map fst ?sy)"
    by (simp_all add: sorted_sort_key)
  moreover have "set (map fst ?sx) = set (map fst ?sy)"
    using keys by simp
  ultimately have ks: "map fst ?sx = map fst ?sy"
    by (intro sorted_distinct_set_unique)
  then have len: "length ?sx = length ?sy"
    using map_eq_imp_length_eq by blast
  show ?thesis
  proof (rule nth_equalityI)
    show "length (map (\<lambda>p. (fst p, f (snd p))) ?sx) = length (map (\<lambda>p. (fst p, g (snd p))) ?sy)"
      using len by simp
  next
    fix i assume "i < length (map (\<lambda>p. (fst p, f (snd p))) ?sx)"
    then have i: "i < length ?sx" "i < length ?sy" using len by simp_all
    then have "?sx ! i \<in> set xs" "?sy ! i \<in> set ys"
      using nth_mem [of i ?sx] nth_mem [of i ?sy] by simp_all
    then have "map_of xs (fst (?sx ! i)) = Some (snd (?sx ! i))"
      "map_of ys (fst (?sy ! i)) = Some (snd (?sy ! i))"
      using dx dy by simp_all
    moreover have "fst (?sx ! i) = fst (?sy ! i)"
      using ks i by (metis nth_map)
    ultimately have "f (snd (?sx ! i)) = g (snd (?sy ! i))"
      using vals by metis
    then show "map (\<lambda>p. (fst p, f (snd p))) ?sx ! i = map (\<lambda>p. (fst p, g (snd p))) ?sy ! i"
      using i \<open>fst (?sx ! i) = fst (?sy ! i)\<close> by simp
  qed
qed

lemma exists_at_Nil [simp]: "exists_at n []"
  by (simp add: exists_at_def)

lemma exists_at_Cons:
  "exists_at n (t # p) = (case map_of (children n) t of None \<Rightarrow> False | Some c \<Rightarrow> exists_at c p)"
  by (simp add: exists_at_def split: option.splits)

lemma keys_exists_at: "fst ` set (children n) = {t. exists_at n [t]}"
  by (auto simp: exists_at_Cons dom_map_of_conv_image_fst [symmetric] split: option.splits)

lemma fingerprint_cong:
  assumes "unhashed n1" "unhashed n2" "well_keyed n1" "well_keyed n2"
    and "token_id n1 = token_id n2"
    and "\<And>p. exists_at n1 p = exists_at n2 p"
    and "\<And>p. end_at n1 p = end_at n2 p"
    and "\<And>p. score_at n1 p = score_at n2 p"
  shows "fingerprint H n1 = fingerprint H n2"
  using assms
proof (induction n1 arbitrary: n2 rule: height.induct)
  case (1 n1)
  have h1: "structural_hash n1 = None" and h2: "structural_hash n2 = None"
    using "1.prems"(1,2) by (simp_all add: unhashed.simps [of n1] unhashed.simps [of n2])
  have d1: "distinct (map fst (children n1))" and d2: "distinct (map fst (children n2))"
    using "1.prems"(3,4) by (simp_all add: well_keyed.simps [of n1] well_keyed.simps [of n2])
  have keys: "fst ` set (children n1) = fst ` set (children n2)"
    using "1.prems"(6) by (simp add: keys_exists_at)
  have kids: "fingerprint H a = fingerprint H b"
    if a: "map_of (children n1) k = Some a" and b: "map_of (children n2) k = Some b" for k a b
  proof -
    have ma: "(k, a) \<in> set (children n1)" and mb: "(k, b) \<in> set (children n2)"
      using a b by (simp_all add: map_of_SomeD)
    have "unhashed a" "unhashed b"
      using "1.prems"(1,2) a b unhashed_child by blast+
    moreover have "well_keyed a" "well_keyed b" "token_id a = Tok k" "token_id b = Tok k"
      using "1.prems"(3,4) ma mb
      by (auto simp: well_keyed.simps [of n1] well_keyed.simps [of n2] list_all_iff)
    moreover have "exists_at a p = exists_at b p" for p
      using "1.prems"(6) [of "k # p"] a b by (simp add: exists_at_Cons)
    moreover have "end_at a p = end_at b p" for p
      using "1.prems"(7) [of "k # p"] a b by (simp add: end_at_Cons)
    moreover have "score_at a p = score_at b p" for p
      using "1.prems"(8) [of "k # p"] a b by (simp add: score_at_Cons)
    ultimately show ?thesis
      using "1.IH" [of "(k, a)" b] ma by simp
  qed
  have "map (\<lambda>p. (fst p, fingerprint H (snd p))) (sort_key fst (children n1))
      = map (\<lambda>p. (fst p, fingerprint H (snd p))) (sort_key fst (children n2))"
    using d1 d2 keys kids by (rule sorted_children_cong)
  moreover have "is_end_of_completion n1 = is_end_of_completion n2" "score n1 = score n2"
    using "1.prems"(7) [of "[]"] "1.prems"(8) [of "[]"] by simp_all
  ultimately show ?case
    using "1.prems"(5) by (simp add: fingerprint_unhashed h1 h2)
qed


lemma exists_at_set_count [simp]: "exists_at (set_count k n) p = exists_at n p"
  by (cases p) (simp_all add: exists_at_Cons)

lemma exists_at_TreeNode [simp]: "exists_at (TreeNode tok uid) p = (p = [])"
  by (cases p) (simp_all add: exists_at_Cons)

lemma exists_at_child_for:
  "exists_at (fst (child_for n t nid)) q = (q = [] \<or> exists_at n (t # q))"
  by (cases q) (simp_all add: child_for_def exists_at_Cons split: option.splits)

lemma exists_at_insert_tokens:
  "exists_at (fst (insert_tokens ts sc n nid)) p = (prefix p ts \<or> exists_at n p)"
proof (induction ts arbitrary: n nid p)
  case Nil
  show ?case
    by (cases p) (simp_all add: exists_at_Cons)
next
  case (Cons t ts)
  show ?case
  proof (cases p)
    case Nil
    then show ?thesis by simp
  next
    case (Cons u q)
    show ?thesis
    proof (cases "u = t")
      case True
      then show ?thesis
        by (auto simp add: Cons fst_insert_tokens_Cons exists_at_Cons [of _ t q] update_conv' Cons.IH
            exists_at_child_for)
    next
      case False
      then show ?thesis
        by (simp add: Cons fst_insert_tokens_Cons exists_at_Cons [of _ u q] update_conv')
    qed
  qed
qed

lemma exists_at_build_loop:
  "exists_at (fst (build_loop scores i cs st)) p = ((\<exists>c\<in>set cs. prefix p c) \<or> exists_at (fst st) p)"
  by (induction cs arbitrary: i st) (auto simp: exists_at_insert_tokens)

lemma token_id_insert_tokens [simp]: "token_id (fst (insert_tokens ts sc n nid)) = token_id n"
  by (cases ts) (simp_all add: fst_insert_tokens_Cons)

lemma token_id_build_loop [simp]: "token_id (fst (build_loop scores i cs st)) = token_id (fst st)"
  by (induction cs arbitrary: i st) simp_all

lemma well_keyed_children_cong: "children n = children m \<Longrightarrow> well_keyed n = well_keyed m"
  by (simp add: well_keyed.simps [of n] well_keyed.simps [of m])

lemma well_keyed_set_count [simp]: "well_keyed (set_count k n) = well_keyed n"
  by (rule well_keyed_children_cong) simp

lemma well_keyed_mark_end [simp]: "well_keyed (mark_end sc n) = well_keyed n"
  by (rule well_keyed_children_cong) simp

lemma well_keyed_TreeNode [simp]: "well_keyed (TreeNode tok uid)"
  by (simp add: well_keyed.simps [of "TreeNode tok uid"])

lemma well_keyed_child:
  "well_keyed n \<Longrightarrow> map_of (children n) t = Some c \<Longrightarrow> token_id c = Tok t \<and> well_keyed c"
proof -
  assume wk: "well_keyed n" and "map_of (children n) t = Some c"
  then have mem: "(t, c) \<in> set (children n)"
    by (simp add: map_of_SomeD)
  from wk have "\<forall>p\<in>set (children n). token_id (snd p) = Tok (fst p) \<and> well_keyed (snd p)"
    by (simp add: well_keyed.simps [of n] list_all_iff)
  with mem show ?thesis by force
qed

lemma well_keyed_insert_tokens:
  "well_keyed n \<Longrightarrow> well_keyed (fst (insert_tokens ts sc n nid))"
proof (induction ts arbitrary: n nid)
  case Nil
  then show ?case by simp
next
  case (Cons t ts)
  let ?c = "fst (child_for n t nid)"
  let ?e = "set_count (count ?c + 1) ?c"
  let ?c' = "fst (insert_tokens ts sc ?e (snd (child_for n t nid)))"
  have "token_id ?c = Tok t \<and> well_keyed ?c"
    using Cons.prems well_keyed_child [of n t] by (simp add: child_for_def split: option.splits)
  then have c': "token_id ?c' = Tok t" "well_keyed ?c'"
    by (simp_all add: Cons.IH)
  have old: "\<forall>p\<in>set (children n). token_id (snd p) = Tok (fst p) \<and> well_keyed (snd p)"
    and d: "distinct (map fst (children n))"
    using Cons.prems by (simp_all add: well_keyed.simps [of n] list_all_iff)
  have "distinct (map fst (AList.update t ?c' (children n)))"
    using d by (rule distinct_update)
  moreover have "\<forall>p\<in>set (AList.update t ?c' (children n)).
      token_id (snd p) = Tok (fst p) \<and> well_keyed (snd p)"
    using set_update_subset [of t ?c' "children n"] old c' by auto
  ultimately show ?case
    by (simp add: fst_insert_tokens_Cons well_keyed.simps [of "set_children _ _"] list_all_iff)
qed

lemma well_keyed_build_loop:
  "well_keyed (fst st) \<Longrightarrow> well_keyed (fst (build_loop scores i cs st))"
  by (induction cs arbitrary: i st) (simp_all add: well_keyed_insert_tokens)

lemma well_keyed_build_tree: "well_keyed (fst (build_tree cs scores nid))"
  by (simp add: build_tree_def well_keyed_build_loop)

lemma map_fst_entries_from [simp]: "map fst (entries_from scores i cs) = cs"
  by (induction cs arbitrary: i) simp_all

lemma map_fst_entries [simp]: "map fst (entries cs scores) = cs"
  by (simp add: entries_def)

lemma score_at_build_loop_distinct:
  "distinct cs \<Longrightarrow>
   score_at (fst (build_loop scores i cs st)) p =
     (case map_of (entries_from scores i cs) p of
        Some (Some s) \<Rightarrow> Some s
      | _ \<Rightarrow> score_at (fst st) p)"
proof (induction cs arbitrary: i st p)
  case Nil
  show ?case by simp
next
  case (Cons c cs)
  from Cons.prems have d: "distinct cs" and c: "c \<notin> set cs" by simp_all
  note IH = Cons.IH [OF d]
  have "fst ` set (entries_from scores (Suc i) cs) = set cs"
    using map_fst_entries_from [of scores "Suc i" cs] by (metis set_map)
  with c have notin: "map_of (entries_from scores (Suc i) cs) c = None"
    by (simp add: map_of_eq_None_iff)
  show ?case
  proof (cases "p = c")
    case True
    then show ?thesis
      using notin by (simp add: IH score_at_insert_tokens split: option.splits)
  next
    case False
    then show ?thesis
      by (simp add: IH score_at_insert_tokens split: option.splits)
  qed
qed

lemma score_at_build_tree_distinct:
  "distinct cs \<Longrightarrow>
   score_at (fst (build_tree cs scores nid)) p =
     (case map_of (entries cs scores) p of Some (Some s) \<Rightarrow> Some s | _ \<Rightarrow> None)"
  by (simp add: build_tree_def entries_def score_at_build_loop_distinct cong: option.case_cong)

lemma entries_permuted:
  assumes "mset (entries cs scores) = mset (entries cs' scores')" and "distinct cs"
  shows "set cs = set cs'" and "distinct cs'" and "map_of (entries cs scores) = map_of (entries cs' scores')"
proof -
  have "mset (map fst (entries cs scores)) = mset (map fst (entries cs' scores'))"
    using assms(1) by (metis mset_map)
  then have m: "mset cs = mset cs'" by simp
  then show "set cs = set cs'" by (rule mset_eq_setD)
  from m assms(2) show d': "distinct cs'"
    using mset_eq_imp_distinct_iff by blast
  have "set (entries cs scores) = set (entries cs' scores')"
    using assms(1) by (rule mset_eq_setD)
  then show "map_of (entries cs scores) = map_of (entries cs' scores')"
    using assms(2) d' by (simp add: map_of_inject_set)
qed

lemma structural_hash_compute_leaf_stats [simp]:
  "structural_hash (fst (compute_leaf_stats n)) = structural_hash n"
  by (simp add: compute_leaf_stats.simps [of n] Let_def)

lemma root_fingerprint:
  "structural_hash (root (CompletionTree H cs scores)) = Some (fingerprint H (fst (build_tree cs scores 0)))"
  by (simp add: root_CompletionTree structural_hash_compute_structural_hashes)

lemma fingerprint_build_tree_permuted:
  assumes "mset (entries cs scores) = mset (entries cs' scores')" and "distinct cs"
  shows "fingerprint H (fst (build_tree cs scores nid)) = fingerprint H (fst (build_tree cs' scores' nid'))"
proof (rule fingerprint_cong)
  note perm = entries_permuted [OF assms]
  show "unhashed (fst (build_tree cs scores nid))" "unhashed (fst (build_tree cs' scores' nid'))"
    by (rule unhashed_build_tree)+
  show "well_keyed (fst (build_tree cs scores nid))" "well_keyed (fst (build_tree cs' scores' nid'))"
    by (rule well_keyed_build_tree)+
  show "token_id (fst (build_tree cs scores nid)) = token_id (fst (build_tree cs' scores' nid'))"
    by (simp add: build_tree_def)
  show "exists_at (fst (build_tree cs scores nid)) p = exists_at (fst (build_tree cs' scores' nid')) p" for p
    using perm(1) by (simp add: build_tree_def exists_at_build_loop)
  show "end_at (fst (build_tree cs scores nid)) p = end_at (fst (build_tree cs' scores' nid')) p" for p
    using perm(1) by (simp add: build_tree_def end_at_build_loop)
  show "score_at (fst (build_tree cs scores nid)) p = score_at (fst (build_tree cs' scores' nid')) p" for p
    using perm(2,3) assms(2) by (simp add: score_at_build_tree_distinct)
qed

subsection \<open>Fingerprints and the order of children\<close>

lemma entries_from_None: "entries_from None i cs = map (\<lambda>c. (c, None)) cs"
  by (induction cs arbitrary: i) (simp_all add: score_for_def)

lemma entries_from_Some:
  "i + length cs \<le> length ss \<Longrightarrow> entries_from (Some ss) i cs = zip cs (map Some (drop i ss))"
proof (induction cs arbitrary: i)
  case Nil
  show ?case by simp
next
  case (Cons c cs)
  then have i: "i < length ss" and rest: "Suc i + length cs \<le> length ss" by simp_all
  from i have "drop i ss = ss ! i # drop (Suc i) ss"
    by (simp add: Cons_nth_drop_Suc)
  with i show ?case
    by (simp add: Cons.IH [OF rest] score_for_def)
qed

lemma mset_entries_None: "mset cs = mset cs' \<Longrightarrow> mset (entries cs None) = mset (entries cs' None)"
  by (simp add: entries_def entries_from_None)

lemma mset_entries_Some:
  assumes "length ss = length cs" "length ss' = length cs'" "mset (zip cs ss) = mset (zip cs' ss')"
  shows "mset (entries cs (Some ss)) = mset (entries cs' (Some ss'))"
proof -
  have "entries cs (Some ss) = map (\<lambda>p. (fst p, Some (snd p))) (zip cs ss)"
    "entries cs' (Some ss') = map (\<lambda>p. (fst p, Some (snd p))) (zip cs' ss')"
    using assms(1,2) by (simp_all add: entries_def entries_from_Some zip_map2 case_prod_beta)
  then show ?thesis
    using assms(3) by simp
qed

lemma fingerprint_children_permuted:
  assumes h1: "structural_hash n1 = None" and h2: "structural_hash n2 = None"
    and tok: "token_id n1 = token_id n2"
    and e: "is_end_of_completion n1 = is_end_of_completion n2"
    and sc: "is_end_of_completion n1 \<Longrightarrow> score n1 = score n2"
    and d1: "distinct (map fst (children n1))"
    and m: "mset (map (\<lambda>p. (fst p, fingerprint H (snd p))) (children n1)) =
            mset (map (\<lambda>p. (fst p, fingerprint H (snd p))) (children n2))"
  shows "fingerprint H n1 = fingerprint H n2"
proof -
  let ?g = "\<lambda>p. (fst p, fingerprint H (snd p))"
  have "image_mset fst (image_mset ?g (mset (children n1))) =
        image_mset fst (image_mset ?g (mset (children n2)))"
    using m by simp
  then have mk: "image_mset fst (mset (children n1)) = image_mset fst (mset (children n2))"
    by (simp add: multiset.map_comp comp_def)
  then have "mset (map fst (children n1)) = mset (map fst (children n2))"
    by simp
  then have d2: "distinct (map fst (children n2))"
    using d1 mset_eq_imp_distinct_iff by blast
  have "set_mset (image_mset fst (mset (children n1))) = set_mset (image_mset fst (mset (children n2)))"
    using mk by simp
  then have keys: "fst ` set (children n1) = fst ` set (children n2)"
    by simp
  have "set_mset (mset (map ?g (children n1))) = set_mset (mset (map ?g (children n2)))"
    using m by simp
  then have sets: "?g ` set (children n1) = ?g ` set (children n2)"
    by simp
  have vals: "fingerprint H a = fingerprint H b"
    if a: "map_of (children n1) k = Some a" and b: "map_of (children n2) k = Some b" for k a b
  proof -
    have "(k, a) \<in> set (children n1)" using a by (rule map_of_SomeD)
    then have "?g (k, a) \<in> ?g ` set (children n1)" by (rule imageI)
    with sets have "?g (k, a) \<in> ?g ` set (children n2)" by simp
    then obtain q where q: "q \<in> set (children n2)" "?g (k, a) = ?g q"
      by (rule imageE)
    then have "(k, snd q) \<in> set (children n2)" "fingerprint H (snd q) = fingerprint H a"
      by (cases q; simp)+
    with d2 have "map_of (children n2) k = Some (snd q)" "fingerprint H (snd q) = fingerprint H a"
      by simp_all
    with b show ?thesis by simp
  qed
  have "map ?g (sort_key fst (children n1)) = map ?g (sort_key fst (children n2))"
    using d1 d2 keys vals by (rule sorted_children_cong)
  then show ?thesis
    using tok e sc by (simp add: fingerprint_unhashed h1 h2)
qed

subsection \<open>Stored hashes in the finished tree\<close>

lemma insort_key_map_value:
  "insort_key fst (fst x, f (snd x)) (map (\<lambda>p. (fst p, f (snd p))) ys) =
     map (\<lambda>p. (fst p, f (snd p))) (insort_key fst x ys)"
  by (induction ys) simp_all

lemma sort_key_map_value:
  "sort_key fst (map (\<lambda>p. (fst p, f (snd p))) xs) = map (\<lambda>p. (fst p, f (snd p))) (sort_key fst xs)"
  by (induction xs) (simp_all add: insort_key_map_value)

lemma hash_components_of_hashed:
  "structural_hash n = None \<Longrightarrow>
   structural_hash (fst (compute_structural_hashes H n)) =
     Some (H (hash_components_of (fst (compute_structural_hashes H n))))"
proof -
  assume none: "structural_hash n = None"
  have "map (\<lambda>p. (fst p, the (structural_hash (snd p))))
          (sort_key fst (map (\<lambda>kc. (fst kc, fst (compute_structural_hashes H (snd kc)))) (children n)))
      = map (\<lambda>p. (fst p, fingerprint H (snd p))) (sort_key fst (children n))"
    by (simp add: sort_key_map_value [of "\<lambda>c. fst (compute_structural_hashes H c)"]
        structural_hash_compute_structural_hashes comp_def)
  then have "H (hash_components_of (fst (compute_structural_hashes H n))) = fingerprint H n"
    using none by (simp add: hash_components_of_def children_compute_structural_hashes fingerprint_unhashed)
  then show ?thesis
    by (simp add: structural_hash_compute_structural_hashes)
qed

lemma hashed_node_at:
  "unhashed n \<Longrightarrow> node_at (fst (compute_structural_hashes H n)) p = Some m \<Longrightarrow>
   structural_hash m = Some (H (hash_components_of m))"
proof (induction p arbitrary: n m)
  case Nil
  from Nil(1) have "structural_hash n = None"
    by (simp add: unhashed.simps [of n])
  then have "structural_hash (fst (compute_structural_hashes H n)) =
      Some (H (hash_components_of (fst (compute_structural_hashes H n))))"
    by (rule hash_components_of_hashed)
  with Nil(2) show ?case by simp
next
  case (Cons t q)
  from Cons.prems(1) have none: "structural_hash n = None"
    by (simp add: unhashed.simps [of n])
  from Cons.prems(2) none obtain c where c: "map_of (children n) t = Some c"
    and at: "node_at (fst (compute_structural_hashes H c)) q = Some m"
    by (auto simp: children_compute_structural_hashes
        map_of_map_value [of "\<lambda>c. fst (compute_structural_hashes H c)"] split: option.splits)
  from Cons.prems(1) c have "unhashed c" by (rule unhashed_child)
  then show ?case using at by (rule Cons.IH)
qed

lemma hash_components_of_compute_leaf_stats [simp]:
  "hash_components_of (fst (compute_leaf_stats n)) = hash_components_of n"
  by (simp add: hash_components_of_def children_compute_leaf_stats
      sort_key_map_value [of "\<lambda>c. fst (compute_leaf_stats c)"] comp_def)

lemma node_at_compute_leaf_stats:
  "node_at (fst (compute_leaf_stats n)) p = Some m' \<Longrightarrow>
   \<exists>m. node_at n p = Some m \<and> structural_hash m' = structural_hash m
       \<and> hash_components_of m' = hash_components_of m"
proof (induction p arbitrary: n m')
  case Nil
  then show ?case by auto
next
  case (Cons t q)
  show ?case
  proof (cases "is_end_of_completion n")
    case True
    with Cons.prems show ?thesis
      by (simp add: children_compute_leaf_stats)
  next
    case False
    with Cons.prems obtain c where c: "map_of (children n) t = Some c"
      and at: "node_at (fst (compute_leaf_stats c)) q = Some m'"
      by (auto simp: children_compute_leaf_stats
          map_of_map_value [of "\<lambda>c. fst (compute_leaf_stats c)"] split: option.splits)
    from Cons.IH [OF at] c show ?thesis by simp
  qed
qed

lemma finished_node_hash:
  assumes "node_at (root (CompletionTree H cs scores)) p = Some m"
  shows "structural_hash m = Some (H (hash_components_of m))"
proof -
  let ?r1 = "fst (compute_structural_hashes H (fst (build_tree cs scores 0)))"
  from assms obtain m1 where m1: "node_at ?r1 p = Some m1"
    "structural_hash m = structural_hash m1" "hash_components_of m = hash_components_of m1"
    using node_at_compute_leaf_stats [of ?r1 p m] by (auto simp: root_CompletionTree)
  have "structural_hash m1 = Some (H (hash_components_of m1))"
    using unhashed_build_tree m1(1) by (rule hashed_node_at)
  with m1 show ?thesis by simp
qed

lemma singleton_batch_root:
  "root (CompletionTree H [[k]] None) =
     Node ROOT 0 [(k, Node (Tok k) 1 [] True None 1 (Some (H (Tok k, True, None, []))) 1 (Finite 0))]
       False None 1 (Some (H (ROOT, False, None, [(k, H (Tok k, True, None, []))]))) 1 (Finite 0)"
  by (simp add: CompletionTree_def build_tree_def insert_tokens.simps(2) child_for_def
      TreeNode_def score_for_def Let_def)

subsection \<open>Leaf statistics\<close>

lemma fold_pair_sums:
  "fold (\<lambda>r acc. (fst acc + f r, float_add (snd acc) (g r))) xs (a, b) =
     (a + sum_list (map f xs), foldl float_add b (map g xs))"
  for a :: nat
  by (induction xs arbitrary: a b) (simp_all add: ac_simps)

lemma leaf_stats_unfold:
  "leaf_stats n =
     (if is_end_of_completion n then (1, case score n of Some s \<Rightarrow> s | None \<Rightarrow> Finite 0)
      else (sum_list (map (\<lambda>p. fst (leaf_stats (snd p))) (children n)),
            float_sum (map (\<lambda>p. snd (leaf_stats (snd p))) (children n))))"
  by (simp add: leaf_stats_def compute_leaf_stats.simps [of n] Let_def fold_pair_sums comp_def
      float_sum_def)

lemma stored_leaf_stats:
  "descendant_leaf_count (fst (compute_leaf_stats n)) = fst (leaf_stats n)"
  "descendant_score_sum (fst (compute_leaf_stats n)) = snd (leaf_stats n)"
  by (simp_all add: leaf_stats_def compute_leaf_stats.simps [of n] Let_def)

lemma root_leaf_stats:
  "descendant_leaf_count (root (CompletionTree H cs scores)) =
     fst (leaf_stats (fst (compute_structural_hashes H (fst (build_tree cs scores 0)))))"
  "descendant_score_sum (root (CompletionTree H cs scores)) =
     snd (leaf_stats (fst (compute_structural_hashes H (fst (build_tree cs scores 0)))))"
  by (simp_all add: root_CompletionTree stored_leaf_stats)

subsection \<open>Exact statistics and insertion\<close>

lemma exact_stats_cong:
  "is_end_of_completion n = is_end_of_completion m \<Longrightarrow> score n = score m \<Longrightarrow>
   children n = children m \<Longrightarrow> exact_stats n = exact_stats m"
  by (simp add: exact_stats.simps [of n] exact_stats.simps [of m])

lemma exact_stats_set_count [simp]: "exact_stats (set_count k n) = exact_stats n"
  by (rule exact_stats_cong) simp_all

lemma exact_stats_TreeNode [simp]: "exact_stats (TreeNode tok uid) = (0, 0)"
  by (simp add: exact_stats.simps [of "TreeNode tok uid"])

lemma exact_stats_compute_structural_hashes [simp]:
  "exact_stats (fst (compute_structural_hashes H n)) = exact_stats n"
proof (induction n rule: height.induct)
  case (1 n)
  show ?case
  proof (cases "structural_hash n")
    case None
    have a: "map (\<lambda>p. fst (exact_stats (fst (compute_structural_hashes H (snd p))))) (children n)
        = map (\<lambda>p. fst (exact_stats (snd p))) (children n)"
      by (rule map_cong) (simp_all add: "1.IH")
    have b: "map (\<lambda>p. snd (exact_stats (fst (compute_structural_hashes H (snd p))))) (children n)
        = map (\<lambda>p. snd (exact_stats (snd p))) (children n)"
      by (rule map_cong) (simp_all add: "1.IH")
    have "exact_stats (fst (compute_structural_hashes H n)) =
        (if is_end_of_completion n then (1, case score n of Some s \<Rightarrow> float_value s | None \<Rightarrow> 0)
         else (sum_list (map (\<lambda>p. fst (exact_stats (fst (compute_structural_hashes H (snd p))))) (children n)),
               sum_list (map (\<lambda>p. snd (exact_stats (fst (compute_structural_hashes H (snd p))))) (children n))))"
      using None
      by (simp add: exact_stats.simps [of "fst (compute_structural_hashes H n)"]
          children_compute_structural_hashes comp_def)
    also have "\<dots> = exact_stats n"
      unfolding a b by (rule exact_stats.simps [symmetric])
    finally show ?thesis .
  next
    case (Some h)
    then show ?thesis
      by (simp add: compute_structural_hashes.simps [of H n])
  qed
qed

lemma sum_list_update_add:
  "sum_list (map (\<lambda>kc. f (snd kc)) (AList.update k v al))
     + (case map_of al k of None \<Rightarrow> 0 | Some v0 \<Rightarrow> f v0)
   = sum_list (map (\<lambda>kc. f (snd kc)) al) + f v"
  for f :: "'v \<Rightarrow> 'a::comm_monoid_add"
  by (induction al) (auto simp: ac_simps)

lemma fresh_set_count [simp]: "fresh (set_count k n) ts = fresh n ts"
  by (cases ts) simp_all

lemma fresh_blank: "\<not> is_end_of_completion n \<Longrightarrow> children n = [] \<Longrightarrow> fresh n ts"
  by (cases ts) simp_all

lemma exact_stats_insert_fresh:
  "fresh n ts \<Longrightarrow>
   exact_stats (fst (insert_tokens ts (Some s) n nid)) =
     (fst (exact_stats n) + 1, snd (exact_stats n) + float_value s)"
proof (induction ts arbitrary: n nid)
  case Nil
  then show ?case
    by (simp add: exact_stats.simps [of "mark_end _ _"] exact_stats.simps [of n])
next
  case (Cons t ts)
  let ?c = "fst (child_for n t nid)"
  let ?e = "set_count (count ?c + 1) ?c"
  let ?c' = "fst (insert_tokens ts (Some s) ?e (snd (child_for n t nid)))"
  let ?n' = "fst (insert_tokens (t # ts) (Some s) n nid)"
  from Cons.prems have ne: "\<not> is_end_of_completion n" by simp
  have "fresh ?c ts"
    using Cons.prems by (simp add: child_for_def fresh_blank split: option.splits)
  then have "fresh ?e ts" by simp
  then have c': "exact_stats ?c' = (fst (exact_stats ?c) + 1, snd (exact_stats ?c) + float_value s)"
    using Cons.IH [of ?e] by simp
  have old1: "(case map_of (children n) t of None \<Rightarrow> 0 | Some v0 \<Rightarrow> fst (exact_stats v0)) = fst (exact_stats ?c)"
    and old2: "(case map_of (children n) t of None \<Rightarrow> 0 | Some v0 \<Rightarrow> snd (exact_stats v0)) = snd (exact_stats ?c)"
    by (simp_all add: child_for_def split: option.splits)
  have s1: "sum_list (map (\<lambda>p. fst (exact_stats (snd p))) (AList.update t ?c' (children n)))
      = sum_list (map (\<lambda>p. fst (exact_stats (snd p))) (children n)) + 1"
    using sum_list_update_add [of "\<lambda>c. fst (exact_stats c)" t ?c' "children n"] old1 c' by simp
  have s2: "sum_list (map (\<lambda>p. snd (exact_stats (snd p))) (AList.update t ?c' (children n)))
      = sum_list (map (\<lambda>p. snd (exact_stats (snd p))) (children n)) + float_value s"
    using sum_list_update_add [of "\<lambda>c. snd (exact_stats c)" t ?c' "children n"] old2 c' by simp
  have "children ?n' = AList.update t ?c' (children n)" "\<not> is_end_of_completion ?n'"
    using ne by (simp_all add: fst_insert_tokens_Cons)
  then show ?case
    using ne s1 s2 by (simp add: exact_stats.simps [of ?n'] exact_stats.simps [of n])
qed

lemma fresh_intro:
  "(\<And>q. prefix q ts \<Longrightarrow> \<not> end_at n q) \<Longrightarrow> (ts = [] \<Longrightarrow> children n = []) \<Longrightarrow>
   (ts \<noteq> [] \<Longrightarrow> \<not> exists_at n ts) \<Longrightarrow> fresh n ts"
proof (induction ts arbitrary: n)
  case Nil
  from Nil(1) [of "[]"] Nil(2) show ?case by simp
next
  case (Cons t ts)
  from Cons.prems(1) [of "[]"] have ne: "\<not> is_end_of_completion n" by simp
  show ?case
  proof (cases "map_of (children n) t")
    case None
    with ne show ?thesis by simp
  next
    case (Some c)
    have "fresh c ts"
    proof (rule Cons.IH)
      fix q assume "prefix q ts"
      then have "prefix (t # q) (t # ts)" by simp
      from Cons.prems(1) [OF this] Some show "\<not> end_at c q"
        by (simp add: end_at_Cons)
    next
      assume "ts = []"
      with Cons.prems(3) Some show "children c = []"
        by (simp add: exists_at_Cons)
    next
      assume "ts \<noteq> []"
      from Cons.prems(3) Some show "\<not> exists_at c ts"
        by (simp add: exists_at_Cons)
    qed
    with ne Some show ?thesis by simp
  qed
qed


lemma exact_stats_build_loop:
  assumes blank: "\<not> is_end_of_completion r0" "children r0 = []"
  shows "distinct cs \<Longrightarrow> (\<forall>a\<in>set cs. \<forall>b\<in>set cs. prefix a b \<longrightarrow> a = b) \<Longrightarrow>
         length cs \<le> length scs \<Longrightarrow>
         exact_stats (fst (build_loop (Some scs) 0 cs (r0, nid))) =
           (length cs, sum_list (map float_value (take (length cs) scs)))"
proof (induction cs rule: rev_induct)
  case Nil
  show ?case
    using blank by (simp add: exact_stats.simps [of r0])
next
  case (snoc c cs)
  let ?T = "fst (build_loop (Some scs) 0 cs (r0, nid))"
  from snoc.prems have d: "distinct cs" and c: "c \<notin> set cs"
    and anti: "\<forall>a\<in>set cs. \<forall>b\<in>set cs. prefix a b \<longrightarrow> a = b"
    and len: "length cs < length scs"
    by simp_all
  have apart: "\<not> prefix c d \<and> \<not> prefix d c" if "d \<in> set cs" for d
    using snoc.prems(2) that c by auto
  have r0_obs: "\<not> end_at r0 q" "exists_at r0 q = (q = [])" for q
    using blank by (cases q; simp add: end_at_Cons exists_at_Cons)+
  have "fresh ?T c"
  proof (rule fresh_intro)
    fix q assume "prefix q c"
    with apart show "\<not> end_at ?T q"
      by (auto simp: end_at_build_loop r0_obs)
  next
    assume "c = []"
    with apart have "cs = []" by (cases cs) auto
    with blank show "children ?T = []" by simp
  next
    assume "c \<noteq> []"
    with apart show "\<not> exists_at ?T c"
      by (auto simp: exists_at_build_loop r0_obs)
  qed
  then have "exact_stats (fst (insert_tokens c (Some (scs ! length cs)) ?T (snd (build_loop (Some scs) 0 cs (r0, nid)))))
      = (fst (exact_stats ?T) + 1, snd (exact_stats ?T) + float_value (scs ! length cs))"
    by (rule exact_stats_insert_fresh)
  moreover have "exact_stats ?T = (length cs, sum_list (map float_value (take (length cs) scs)))"
    using d anti len by (intro snoc.IH) simp_all
  moreover have "score_for (Some scs) (length cs) = Some (scs ! length cs)"
    using len by (simp add: score_for_def)
  ultimately show ?case
    using len by (simp add: build_loop_snoc take_Suc_conv_app_nth)
qed

lemma exact_stats_build_tree:
  "distinct cs \<Longrightarrow> (\<forall>a\<in>set cs. \<forall>b\<in>set cs. prefix a b \<longrightarrow> a = b) \<Longrightarrow>
   length cs \<le> length scs \<Longrightarrow>
   exact_stats (fst (build_tree cs (Some scs) nid)) = (length cs, sum_list (map float_value (take (length cs) scs)))"
  unfolding build_tree_def by (rule exact_stats_build_loop) simp_all

subsection \<open>Sums that do not round\<close>

lemma all_scores_cong:
  "score n = score m \<Longrightarrow> children n = children m \<Longrightarrow> all_scores P n = all_scores P m"
  by (simp add: all_scores.simps [of P n] all_scores.simps [of P m])

lemma all_scores_set_count [simp]: "all_scores P (set_count k n) = all_scores P n"
  by (rule all_scores_cong) simp_all

lemma all_scores_TreeNode [simp]: "all_scores P (TreeNode tok uid)"
  by (simp add: all_scores.simps [of P "TreeNode tok uid"])

lemma all_scores_mark_end:
  "all_scores P n \<Longrightarrow> (\<And>s. sc = Some s \<Longrightarrow> P s) \<Longrightarrow> all_scores P (mark_end sc n)"
  by (cases sc) (simp_all add: all_scores.simps [of P "mark_end _ _"] all_scores.simps [of P n])

lemma all_scores_child: "all_scores P n \<Longrightarrow> map_of (children n) t = Some c \<Longrightarrow> all_scores P c"
proof -
  assume "all_scores P n" and "map_of (children n) t = Some c"
  then have "\<forall>p\<in>set (children n). all_scores P (snd p)" and "(t, c) \<in> set (children n)"
    by (simp_all add: all_scores.simps [of P n] list_all_iff map_of_SomeD)
  then show ?thesis by force
qed

lemma all_scores_insert_tokens:
  "all_scores P n \<Longrightarrow> (\<And>s. sc = Some s \<Longrightarrow> P s) \<Longrightarrow>
   all_scores P (fst (insert_tokens ts sc n nid))"
proof (induction ts arbitrary: n nid)
  case Nil
  then show ?case by (simp add: all_scores_mark_end)
next
  case (Cons t ts)
  let ?c = "fst (child_for n t nid)"
  let ?e = "set_count (count ?c + 1) ?c"
  let ?c' = "fst (insert_tokens ts sc ?e (snd (child_for n t nid)))"
  have "all_scores P ?c"
    using Cons.prems(1) all_scores_child [of P n t] by (simp add: child_for_def split: option.splits)
  then have "all_scores P ?c'"
    using Cons.prems(2) by (simp add: Cons.IH)
  moreover have "\<forall>p\<in>set (children n). all_scores P (snd p)"
    "case score n of None \<Rightarrow> True | Some s \<Rightarrow> P s"
    using Cons.prems(1) by (simp_all add: all_scores.simps [of P n] list_all_iff)
  ultimately show ?case
    using set_update_subset [of t ?c' "children n"]
    by (auto simp: fst_insert_tokens_Cons all_scores.simps [of P "set_children _ _"] list_all_iff)
qed

lemma all_scores_build_loop:
  "all_scores P (fst st) \<Longrightarrow> (\<And>j s. j < length cs \<Longrightarrow> score_for scores (i + j) = Some s \<Longrightarrow> P s) \<Longrightarrow>
   all_scores P (fst (build_loop scores i cs st))"
proof (induction cs arbitrary: i st)
  case Nil
  then show ?case by simp
next
  case (Cons c cs)
  have later: "P s" if "j < length cs" and "score_for scores (Suc i + j) = Some s" for j s
    using Cons.prems(2) [of "Suc j" s] that by simp
  have "all_scores P (fst (insert_tokens c (score_for scores i) (fst st) (snd st)))"
    using Cons.prems(1) Cons.prems(2) [of 0] by (intro all_scores_insert_tokens) simp_all
  then have "all_scores P (fst (build_loop scores (Suc i) cs
      (insert_tokens c (score_for scores i) (fst st) (snd st))))"
    by (rule Cons.IH) (rule later)
  then show ?case by simp
qed

lemma all_scores_build_tree:
  assumes "\<forall>s\<in>set (take (length cs) scs). P s"
  shows "all_scores P (fst (build_tree cs (Some scs) nid))"
  unfolding build_tree_def
proof (rule all_scores_build_loop)
  fix j s
  assume "j < length cs" and "score_for (Some scs) (0 + j) = Some s"
  then have "j < length (take (length cs) scs)" and "s = take (length cs) scs ! j"
    by (simp_all add: score_for_def split: if_splits)
  with assms show "P s" by (metis nth_mem)
qed simp

lemma all_scores_compute_structural_hashes [simp]:
  "all_scores P (fst (compute_structural_hashes H n)) = all_scores P n"
proof (induction n rule: height.induct)
  case (1 n)
  show ?case
  proof (cases "structural_hash n")
    case None
    then show ?thesis
      by (simp add: all_scores.simps [of P "fst (compute_structural_hashes H n)"]
          all_scores.simps [of P n] children_compute_structural_hashes list_all_iff "1.IH")
  next
    case (Some h)
    then show ?thesis
      by (simp add: compute_structural_hashes.simps [of H n])
  qed
qed

lemma exact_stats_on_grid:
  "all_scores (on_grid k) n \<Longrightarrow> on_grid k (Finite (snd (exact_stats n)))"
proof (induction n rule: height.induct)
  case (1 n)
  from "1.prems" have sc: "case score n of None \<Rightarrow> True | Some s \<Rightarrow> on_grid k s"
    and kids: "\<forall>p\<in>set (children n). all_scores (on_grid k) (snd p)"
    by (simp_all add: all_scores.simps [of _ n] list_all_iff)
  show ?case
  proof (cases "is_end_of_completion n")
    case True
    with sc show ?thesis
      by (auto simp: exact_stats.simps [of n] intro: on_grid_Finite_value split: option.splits)
  next
    case False
    have "\<forall>v\<in>set (map (\<lambda>p. snd (exact_stats (snd p))) (children n)). on_grid k (Finite v)"
      using kids "1.IH" by auto
    then have "on_grid k (Finite (sum_list (map (\<lambda>p. snd (exact_stats (snd p))) (children n))))"
      by (rule on_grid_sum_list)
    with False show ?thesis
      by (simp add: exact_stats.simps [of n])
  qed
qed

lemma leaf_count_exact: "fst (leaf_stats n) = fst (exact_stats n)"
proof (induction n rule: height.induct)
  case (1 n)
  have counts: "map (\<lambda>p. fst (leaf_stats (snd p))) (children n)
      = map (\<lambda>p. fst (exact_stats (snd p))) (children n)"
    by (rule map_cong) (simp_all add: "1.IH")
  show ?case
    unfolding leaf_stats_unfold [of n] exact_stats.simps [of n] counts by simp
qed

lemma member_le_sum_list_nonneg:
  "x \<in> set xs \<Longrightarrow> \<forall>y\<in>set xs. 0 \<le> y \<Longrightarrow> x \<le> sum_list xs"
  for x :: rat
proof (induction xs)
  case Nil
  then show ?case by simp
next
  case (Cons y ys)
  from Cons.prems(2) have "0 \<le> sum_list ys" "0 \<le> y"
    by (simp_all add: sum_list_nonneg)
  with Cons show ?case by auto
qed

lemma leaf_stats_exact:
  assumes k: "k \<le> 1074"
  shows "all_scores (on_grid k) n \<Longrightarrow> snd (exact_stats n) * 2 ^ k < 2 ^ 53 \<Longrightarrow>
         leaf_stats n = (fst (exact_stats n), Finite (snd (exact_stats n)))"
proof (induction n rule: height.induct)
  case (1 n)
  from "1.prems"(1) have sc: "case score n of None \<Rightarrow> True | Some s \<Rightarrow> on_grid k s"
    and kids: "\<forall>p\<in>set (children n). all_scores (on_grid k) (snd p)"
    by (simp_all add: all_scores.simps [of _ n] list_all_iff)
  show ?case
  proof (cases "is_end_of_completion n")
    case True
    with sc show ?thesis
      by (auto simp: exact_stats.simps [of n] leaf_stats_unfold [of n] dest: on_grid_value
          split: option.splits)
  next
    case False
    let ?vs = "map (\<lambda>p. snd (exact_stats (snd p))) (children n)"
    have total: "snd (exact_stats n) = sum_list ?vs"
      using False by (simp add: exact_stats.simps [of n])
    have grid: "\<forall>v\<in>set ?vs. on_grid k (Finite v)"
      using kids by (auto intro: exact_stats_on_grid)
    then have nonneg: "\<forall>v\<in>set ?vs. 0 \<le> v"
      by (auto dest: on_grid_nonneg)
    have child: "leaf_stats (snd p) = (fst (exact_stats (snd p)), Finite (snd (exact_stats (snd p))))"
      if p: "p \<in> set (children n)" for p
    proof (rule "1.IH" [OF p])
      from kids p show "all_scores (on_grid k) (snd p)" by blast
      from p have "snd (exact_stats (snd p)) \<in> set ?vs" by simp
      then have "snd (exact_stats (snd p)) \<le> sum_list ?vs"
        using nonneg by (rule member_le_sum_list_nonneg)
      then have "snd (exact_stats (snd p)) * 2 ^ k \<le> sum_list ?vs * 2 ^ k"
        by (simp add: mult_right_mono)
      also from "1.prems"(2) total have "sum_list ?vs * 2 ^ k < 2 ^ 53" by simp
      finally show "snd (exact_stats (snd p)) * 2 ^ k < 2 ^ 53" .
    qed
    have counts: "map (\<lambda>p. fst (leaf_stats (snd p))) (children n)
        = map (\<lambda>p. fst (exact_stats (snd p))) (children n)"
      by (rule map_cong) (simp_all add: child)
    have sums: "map (\<lambda>p. snd (leaf_stats (snd p))) (children n) = map Finite ?vs"
      unfolding map_map by (rule map_cong) (simp_all add: child)
    have "float_sum (map Finite ?vs) = Finite (sum_list ?vs)"
      using k grid "1.prems"(2) total by (intro float_sum_on_grid) simp_all
    with False show ?thesis
      by (simp add: leaf_stats_unfold [of n] exact_stats.simps [of n] counts sums)
  qed
qed

section \<open>Equal fingerprints and equal components\<close>

text \<open>
  Every hash function with finitely many values (Python's \<open>hash\<close> returns a machine
  integer) gives the same fingerprint to two nodes with different component tuples: the
  roots of the one-completion batches \<open>[[k]]\<close> have pairwise different tuples, so two of
  them collide.
\<close>

lemma fingerprints_collide:
  "\<not> (\<exists>H. finite (range H) \<and>
        (\<forall>cs1 sc1 p1 n1 cs2 sc2 p2 n2.
           node_at (root (CompletionTree H cs1 sc1)) p1 = Some n1 \<longrightarrow>
           node_at (root (CompletionTree H cs2 sc2)) p2 = Some n2 \<longrightarrow>
           (structural_hash n1 = structural_hash n2 \<longleftrightarrow>
            hash_components_of n1 = hash_components_of n2)))"
proof
  assume "\<exists>H. finite (range H) \<and>
        (\<forall>cs1 sc1 p1 n1 cs2 sc2 p2 n2.
           node_at (root (CompletionTree H cs1 sc1)) p1 = Some n1 \<longrightarrow>
           node_at (root (CompletionTree H cs2 sc2)) p2 = Some n2 \<longrightarrow>
           (structural_hash n1 = structural_hash n2 \<longleftrightarrow>
            hash_components_of n1 = hash_components_of n2))"
  then obtain H :: "hash_components \<Rightarrow> int" where fin: "finite (range H)"
    and iff: "\<And>cs1 sc1 p1 n1 cs2 sc2 p2 n2.
           node_at (root (CompletionTree H cs1 sc1)) p1 = Some n1 \<Longrightarrow>
           node_at (root (CompletionTree H cs2 sc2)) p2 = Some n2 \<Longrightarrow>
           (structural_hash n1 = structural_hash n2 \<longleftrightarrow>
            hash_components_of n1 = hash_components_of n2)"
    by blast
  let ?R = "\<lambda>k. root (CompletionTree H [[k]] None)"
  let ?f = "\<lambda>k::int. H (ROOT, False, None, [(k, H (Tok k, True, None, []))])"
  have "inj ?f"
  proof (rule injI)
    fix j k :: int
    assume "?f j = ?f k"
    then have "structural_hash (?R j) = structural_hash (?R k)"
      by (simp add: singleton_batch_root)
    moreover have "node_at (?R j) [] = Some (?R j)" "node_at (?R k) [] = Some (?R k)"
      by simp_all
    ultimately have "hash_components_of (?R j) = hash_components_of (?R k)"
      using iff by blast
    then show "j = k"
      by (simp add: singleton_batch_root hash_components_of_def)
  qed
  moreover have "range ?f \<subseteq> range H" by blast
  then have "finite (range ?f)" using fin by (rule finite_subset)
  ultimately have "finite (UNIV :: int set)"
    by (rule finite_imageD [rotated])
  then show False by simp
qed

text \<open>
  Claim C1, as the code has it. In a finished tree every node stores the hash of its
  component tuple: token, end flag, score if an end node, and the token-ordered pairs of
  child token and child fingerprint. The score enters the tuple as the float that
  \<open>json.dumps\<close> writes, so \<open>0.0\<close> and \<open>-0.0\<close> are different scores here. Two nodes of
  finished trees therefore have equal fingerprints exactly when the hash function gives
  their tuples the same value: always when the tuples are equal, and for different
  tuples only when the hash function collides on them, which the code does not exclude.
\<close>

theorem C1_fingerprint_equality:
  assumes "node_at (root (CompletionTree H cs1 sc1)) p1 = Some n1"
    and "node_at (root (CompletionTree H cs2 sc2)) p2 = Some n2"
  shows "structural_hash n1 = Some (H (hash_components_of n1))
       \<and> structural_hash n2 = Some (H (hash_components_of n2))
       \<and> (structural_hash n1 = structural_hash n2 \<longleftrightarrow>
            H (hash_components_of n1) = H (hash_components_of n2))
       \<and> (hash_components_of n1 = hash_components_of n2 \<longrightarrow> structural_hash n1 = structural_hash n2)
       \<and> (inj_on H {hash_components_of n1, hash_components_of n2} \<longrightarrow>
            (structural_hash n1 = structural_hash n2 \<longleftrightarrow>
             hash_components_of n1 = hash_components_of n2))"
proof -
  have h1: "structural_hash n1 = Some (H (hash_components_of n1))"
    using assms(1) by (rule finished_node_hash)
  have h2: "structural_hash n2 = Some (H (hash_components_of n2))"
    using assms(2) by (rule finished_node_hash)
  have eq_iff: "structural_hash n1 = structural_hash n2 \<longleftrightarrow>
      H (hash_components_of n1) = H (hash_components_of n2)"
    using h1 h2 by simp
  have eq_if: "structural_hash n1 = structural_hash n2"
    if "hash_components_of n1 = hash_components_of n2"
    using that h1 h2 by simp
  have eq_only_if: "hash_components_of n1 = hash_components_of n2"
    if inj: "inj_on H {hash_components_of n1, hash_components_of n2}"
      and eq: "structural_hash n1 = structural_hash n2"
  proof -
    from eq h1 h2 have "H (hash_components_of n1) = H (hash_components_of n2)" by simp
    with inj show ?thesis by (rule inj_onD) simp_all
  qed
  from h1 h2 eq_iff eq_if eq_only_if show ?thesis by blast
qed

text \<open>
  The equivalence as stated fails in both directions. The batches \<open>[[5]]\<close> with scores
  \<open>[0.0]\<close> and \<open>[[5]]\<close> with scores \<open>[-0.0]\<close> give two end nodes with the same token, no
  children and scores that are equal as numbers (\<open>0.0 == -0.0\<close>), whose fingerprints are
  the hashes of two different tuples, and so differ unless the hash function happens to
  collide on these two. And for every hash function with finitely many values some two
  nodes with different tuples have equal fingerprints.
\<close>

theorem C1_counterexample:
  "float_eq (Finite 0) NegZero
   \<and> (\<forall>H. \<exists>n1 n2.
         node_at (root (CompletionTree H [[5]] (Some [Finite 0]))) [5] = Some n1
       \<and> node_at (root (CompletionTree H [[5]] (Some [NegZero]))) [5] = Some n2
       \<and> token_id n1 = token_id n2
       \<and> is_end_of_completion n1 \<and> is_end_of_completion n2
       \<and> score n1 = Some (Finite 0) \<and> score n2 = Some NegZero
       \<and> children n1 = [] \<and> children n2 = []
       \<and> structural_hash n1 = Some (H (Tok 5, True, Some (Finite 0), []))
       \<and> structural_hash n2 = Some (H (Tok 5, True, Some NegZero, [])))
   \<and> (\<exists>H n1 n2.
         node_at (root (CompletionTree H [[5]] (Some [Finite 0]))) [5] = Some n1
       \<and> node_at (root (CompletionTree H [[5]] (Some [NegZero]))) [5] = Some n2
       \<and> structural_hash n1 \<noteq> structural_hash n2)
   \<and> \<not> (\<exists>H. finite (range H) \<and>
        (\<forall>cs1 sc1 p1 n1 cs2 sc2 p2 n2.
           node_at (root (CompletionTree H cs1 sc1)) p1 = Some n1 \<longrightarrow>
           node_at (root (CompletionTree H cs2 sc2)) p2 = Some n2 \<longrightarrow>
           (structural_hash n1 = structural_hash n2 \<longleftrightarrow>
            hash_components_of n1 = hash_components_of n2)))"
proof -
  note tree_eval = CompletionTree_def build_tree_def insert_tokens.simps(2) child_for_def
    TreeNode_def score_for_def Let_def float_add_def
  have zeros: "float_eq (Finite 0) NegZero"
    by (simp add: float_eq_def)
  have nodes: "\<forall>H. \<exists>n1 n2.
         node_at (root (CompletionTree H [[5]] (Some [Finite 0]))) [5] = Some n1
       \<and> node_at (root (CompletionTree H [[5]] (Some [NegZero]))) [5] = Some n2
       \<and> token_id n1 = token_id n2
       \<and> is_end_of_completion n1 \<and> is_end_of_completion n2
       \<and> score n1 = Some (Finite 0) \<and> score n2 = Some NegZero
       \<and> children n1 = [] \<and> children n2 = []
       \<and> structural_hash n1 = Some (H (Tok 5, True, Some (Finite 0), []))
       \<and> structural_hash n2 = Some (H (Tok 5, True, Some NegZero, []))"
    by (simp add: tree_eval)
  let ?H = "\<lambda>c :: hash_components. if c = (Tok 5, True, Some NegZero, []) then 1 else (0 :: int)"
  have "\<exists>n1 n2.
         node_at (root (CompletionTree ?H [[5]] (Some [Finite 0]))) [5] = Some n1
       \<and> node_at (root (CompletionTree ?H [[5]] (Some [NegZero]))) [5] = Some n2
       \<and> structural_hash n1 \<noteq> structural_hash n2"
    by (simp add: tree_eval)
  then have differ: "\<exists>H n1 n2.
         node_at (root (CompletionTree H [[5]] (Some [Finite 0]))) [5] = Some n1
       \<and> node_at (root (CompletionTree H [[5]] (Some [NegZero]))) [5] = Some n2
       \<and> structural_hash n1 \<noteq> structural_hash n2"
    by (rule exI [where x = ?H])
  show ?thesis
    by (intro conjI zeros nodes differ fingerprints_collide)
qed

theorem C1_witness:
  "\<exists>n1 n2 n3.
     node_at (root (CompletionTree (\<lambda>c. case fst c of ROOT \<Rightarrow> 0 | Tok k \<Rightarrow> k) [[1], [2]] None)) [1] = Some n1
   \<and> node_at (root (CompletionTree (\<lambda>c. case fst c of ROOT \<Rightarrow> 0 | Tok k \<Rightarrow> k) [[1], [2]] None)) [2] = Some n2
   \<and> node_at (root (CompletionTree (\<lambda>c. case fst c of ROOT \<Rightarrow> 0 | Tok k \<Rightarrow> k) [[5], [1], [1]] None)) [1] = Some n3
   \<and> structural_hash n1 = Some 1 \<and> structural_hash n2 = Some 2 \<and> structural_hash n3 = Some 1
   \<and> hash_components_of n1 \<noteq> hash_components_of n2
   \<and> hash_components_of n1 = hash_components_of n3
   \<and> count n1 \<noteq> count n3 \<and> unique_id n1 \<noteq> unique_id n3"
proof -
  let ?H = "\<lambda>c :: hash_components. case fst c of ROOT \<Rightarrow> 0 | Tok k \<Rightarrow> k"
  let ?T = "root (CompletionTree ?H [[1], [2]] None)"
  let ?U = "root (CompletionTree ?H [[5], [1], [1]] None)"
  obtain n1 n2 where n: "node_at ?T [1] = Some n1" "node_at ?T [2] = Some n2"
    and c: "hash_components_of n1 = (Tok 1, True, None, [])" "hash_components_of n2 = (Tok 2, True, None, [])"
    and i: "count n1 = 1" "unique_id n1 = 1"
    by (simp add: CompletionTree_def build_tree_def insert_tokens.simps(2) child_for_def
        TreeNode_def score_for_def Let_def hash_components_of_def)
  obtain n3 where n3: "node_at ?U [1] = Some n3"
    and c3: "hash_components_of n3 = (Tok 1, True, None, [])"
    and i3: "count n3 = 2" "unique_id n3 = 2"
    by (simp add: CompletionTree_def build_tree_def insert_tokens.simps(2) child_for_def
        TreeNode_def score_for_def Let_def hash_components_of_def)
  have "inj_on ?H {hash_components_of n1, hash_components_of n2}"
    by (simp add: c)
  with C1_fingerprint_equality [OF n] C1_fingerprint_equality [OF n(1) n3] c c3 n n3 i i3
  show ?thesis
    by auto
qed

section \<open>Leaf statistics of end nodes with children\<close>

text \<open>
  Where the statistics pass arrives, it stores what the rule says: a node none of whose
  proper ancestors is an end node gets (1, own score or 0) if it is an end node, and the
  sums of its children's stored pairs otherwise.
\<close>

lemma node_at_compute_leaf_stats_visited:
  "(\<And>q. strict_prefix q p \<Longrightarrow> \<not> end_at n q) \<Longrightarrow>
   node_at (fst (compute_leaf_stats n)) p = map_option (\<lambda>m. fst (compute_leaf_stats m)) (node_at n p)"
proof (induction p arbitrary: n)
  case Nil
  show ?case by simp
next
  case (Cons t q)
  from Cons.prems [of "[]"] have ne: "\<not> is_end_of_completion n" by simp
  show ?case
  proof (cases "map_of (children n) t")
    case None
    with ne show ?thesis
      by (simp add: children_compute_leaf_stats map_of_map_value [of "\<lambda>c. fst (compute_leaf_stats c)"])
  next
    case (Some c)
    have "node_at (fst (compute_leaf_stats c)) q = map_option (\<lambda>m. fst (compute_leaf_stats m)) (node_at c q)"
    proof (rule Cons.IH)
      fix r assume "strict_prefix r q"
      then have "strict_prefix (t # r) (t # q)" by simp
      from Cons.prems [OF this] Some show "\<not> end_at c r"
        by (simp add: end_at_Cons)
    qed
    with ne Some show ?thesis
      by (simp add: children_compute_leaf_stats map_of_map_value [of "\<lambda>c. fst (compute_leaf_stats c)"])
  qed
qed

lemma leaf_stats_rule_where_visited:
  assumes visited: "\<And>q. strict_prefix q p \<Longrightarrow> \<not> end_at n q"
    and at: "node_at (fst (compute_leaf_stats n)) p = Some m"
  shows "(descendant_leaf_count m, descendant_score_sum m) =
     (if is_end_of_completion m then (1, case score m of Some s \<Rightarrow> s | None \<Rightarrow> Finite 0)
      else (sum_list (map (\<lambda>kc. descendant_leaf_count (snd kc)) (children m)),
            float_sum (map (\<lambda>kc. descendant_score_sum (snd kc)) (children m))))"
proof -
  from at obtain m0 where m0: "node_at n p = Some m0" and m: "m = fst (compute_leaf_stats m0)"
    using node_at_compute_leaf_stats_visited [OF visited] by auto
  show ?thesis
  proof (cases "is_end_of_completion m0")
    case True
    then show ?thesis
      by (simp add: m stored_leaf_stats leaf_stats_unfold [of m0])
  next
    case False
    then show ?thesis
      by (simp add: m stored_leaf_stats leaf_stats_unfold [of m0] children_compute_leaf_stats comp_def)
  qed
qed

text \<open>
  Claim C2 at the batch \<open>[[1], [1, 2]]\<close> with scores \<open>[0.5, 1.0]\<close>. The node of token 1 is
  an end node with a child, so \<open>_compute_leaf_stats\<close> returns from it without visiting
  the child. The node at path \<open>[1, 2]\<close> is an end node with score 1.0, and after the pass
  its leaf count and score sum are still the initial 0 and 0.0, not 1 and 1.0. The
  node of token 1 and the root have the pairs that the rule gives them: (1, 0.5) each.
\<close>

theorem C2_stats_below_end_node:
  "map_option (\<lambda>n. (is_end_of_completion n, score n, descendant_leaf_count n, descendant_score_sum n))
     (node_at (root (CompletionTree H [[1], [1, 2]] (Some [Finite (1 / 2), Finite 1]))) [1, 2])
   = Some (True, Some (Finite 1), 0, Finite 0)
   \<and> map_option (\<lambda>n. (is_end_of_completion n, score n, descendant_leaf_count n, descendant_score_sum n))
     (node_at (root (CompletionTree H [[1], [1, 2]] (Some [Finite (1 / 2), Finite 1]))) [1])
   = Some (True, Some (Finite (1 / 2)), 1, Finite (1 / 2))
   \<and> map_option (\<lambda>n. (is_end_of_completion n, score n, descendant_leaf_count n, descendant_score_sum n))
     (node_at (root (CompletionTree H [[1], [1, 2]] (Some [Finite (1 / 2), Finite 1]))) [])
   = Some (False, None, 1, Finite (1 / 2))"
  by (simp add: CompletionTree_def build_tree_def insert_tokens.simps(2) child_for_def
      TreeNode_def score_for_def Let_def)

section \<open>Traversal counts\<close>

text \<open>
  Claim C3. In the finished tree, every node's count is the sum of the counts of its
  direct children plus the number of completions of the batch that are exactly the
  node's path (the sequences that end at this node), and the root's count is the number
  of completions, empty ones included.
\<close>

theorem C3_count_invariant:
  assumes "node_at (root (CompletionTree H completions scores)) p = Some n"
  shows "count n = child_count_sum n + count_list completions p
       \<and> count (root (CompletionTree H completions scores)) = length completions"
proof -
  let ?r = "root (CompletionTree H completions scores)"
  have "count n = count_at ?r p" and "child_count_sum n = kids_at ?r p"
    using assms by (simp_all add: count_at_def kids_at_def)
  moreover have "count_at ?r p = length (filter (prefix p) completions)"
    by (simp add: root_CompletionTree count_at_build_tree)
  moreover have "kids_at ?r p = length (filter (strict_prefix p) completions)"
    by (simp add: root_CompletionTree kids_at_build_tree)
  moreover have "count ?r = length completions"
    using count_at_build_tree [of completions scores 0 "[]"] by (simp add: root_CompletionTree)
  ultimately show ?thesis
    by (simp add: prefix_split_count)
qed

theorem C3_witness:
  "\<exists>n. node_at (root (CompletionTree (\<lambda>_. 0) [[1], [1, 2], [1], []] None)) [1] = Some n
     \<and> count n = 3 \<and> child_count_sum n = 1
     \<and> count (root (CompletionTree (\<lambda>_. 0) [[1], [1, 2], [1], []] None)) = 4"
proof -
  let ?r = "root (CompletionTree (\<lambda>_. 0) [[1], [1, 2], [1], []] None)"
  obtain n where n: "node_at ?r [1] = Some n" "child_count_sum n = 1"
    by (simp add: CompletionTree_def build_tree_def insert_tokens.simps(2) child_for_def
        TreeNode_def score_for_def Let_def child_count_sum_def)
  from C3_count_invariant [OF n(1)] n show ?thesis
    by simp
qed

section \<open>What the fingerprint depends on\<close>

text \<open>
  Claim C4 at the batch \<open>[[1]]\<close>. The stored root fingerprint is the interpreter's
  \<open>hash\<close> of the serialised tuple, applied bottom-up, and nothing else: identifiers and
  counts do not enter (see \<open>fingerprint_cong\<close>; the batch that inserts \<open>[1]\<close> three times
  has the same root fingerprint), but the value is whatever the running process's
  \<open>hash\<close> returns for these strings. Python salts the hash of a string per process, so
  two runs on this batch store different fingerprints unless their hash functions agree
  on the two serialisations.
\<close>

theorem C4_fingerprint_is_runtime_hash:
  "structural_hash (root (CompletionTree H [[1]] None)) =
     Some (H (ROOT, False, None, [(1, H (Tok 1, True, None, []))]))
   \<and> structural_hash (root (CompletionTree H [[1], [1], [1]] None)) =
     structural_hash (root (CompletionTree H [[1]] None))"
  by (simp add: CompletionTree_def build_tree_def insert_tokens.simps(2) child_for_def
      TreeNode_def score_for_def Let_def)

section \<open>The aggregate score query\<close>

text \<open>
  Claim C5. \<open>get_node_score_percentage\<close> returns the quotient of the node's score sum and
  leaf count exactly when the tree has scores and the leaf count is positive, and the
  absent value \<open>None\<close> (never a number) otherwise; the tree has scores exactly when a
  score list was passed; for the empty batch the query at the root returns \<open>None\<close>,
  with or without a score list.
\<close>

theorem C5_score_percentage:
  "get_node_score_percentage tree n =
     (if has_scores tree \<and> 0 < descendant_leaf_count n
      then Some (float_div_count (descendant_score_sum n) (descendant_leaf_count n)) else None)
   \<and> has_scores (CompletionTree H completions scores) = (scores \<noteq> None)
   \<and> get_node_score_percentage (CompletionTree H [] scores) (root (CompletionTree H [] scores)) = None"
proof -
  have empty_root: "descendant_leaf_count (root (CompletionTree H [] scores)) = 0"
    by (simp add: CompletionTree_def build_tree_def TreeNode_def Let_def)
  have "get_node_score_percentage (CompletionTree H [] scores) (root (CompletionTree H [] scores)) = None"
    unfolding get_node_score_percentage_def using empty_root by simp
  moreover have "has_scores (CompletionTree H completions scores) = (scores \<noteq> None)"
    by (simp add: CompletionTree_def Let_def)
  moreover have "get_node_score_percentage tree n =
     (if has_scores tree \<and> 0 < descendant_leaf_count n
      then Some (float_div_count (descendant_score_sum n) (descendant_leaf_count n)) else None)"
    by (simp add: get_node_score_percentage_def)
  ultimately show ?thesis by simp
qed

theorem C5_witness:
  "get_node_score_percentage
     (CompletionTree (\<lambda>_. 0) [[1, 2, 3], [1, 2, 4], [1, 5]] (Some [Finite 1, Finite 0, Finite 1]))
     (root (CompletionTree (\<lambda>_. 0) [[1, 2, 3], [1, 2, 4], [1, 5]] (Some [Finite 1, Finite 0, Finite 1])))
   = Some (Finite (6004799503160661 / 9007199254740992))"
proof -
  define tree where
    "tree = CompletionTree (\<lambda>_. 0) [[1, 2, 3], [1, 2, 4], [1, 5]] (Some [Finite 1, Finite 0, Finite 1])"
  have "has_scores tree" "descendant_leaf_count (root tree) = 3"
    "descendant_score_sum (root tree) = Finite 2"
    by (simp_all add: tree_def CompletionTree_def build_tree_def insert_tokens.simps(2)
        child_for_def TreeNode_def score_for_def Let_def round_double_numeral)
  moreover have "float_div_count (Finite 2) 3 = Finite (6004799503160661 / 9007199254740992)"
    by (simp add: float_eval)
  ultimately show ?thesis
    using C5_score_percentage [of tree "root tree" "\<lambda>_. 0" "[]" None]
    unfolding tree_def by simp
qed

section \<open>Fingerprints and insertion order\<close>

text \<open>
  Claim C6. Two batches that consist of the same completions, each with the same score
  (or with none), in any order, with no completion occurring twice, give the same root
  fingerprint; this is stated for any score lists through the pairs that the loop
  processes, and again for batches without scores and for batches with one score per
  completion. In particular \<open>[A, B]\<close> then \<open>[A, C]\<close> gives the root fingerprint of
  \<open>[A, C]\<close> then \<open>[A, B]\<close>. At the level of one node: two nodes without a cached hash
  that agree on token, end flag and score (if end nodes) and whose children dictionaries
  hold the same multiset of (token, child fingerprint) pairs, in whatever insertion
  order, have the same fingerprint, because the children are sorted by token before
  they are hashed.
\<close>

theorem C6_fingerprint_insertion_order:
  "(mset (entries completions scores) = mset (entries completions' scores') \<and> distinct completions \<longrightarrow>
      (\<exists>h. structural_hash (root (CompletionTree H completions scores)) = Some h
          \<and> structural_hash (root (CompletionTree H completions' scores')) = Some h))
   \<and> (mset completions = mset completions' \<and> distinct completions \<longrightarrow>
        structural_hash (root (CompletionTree H completions None)) =
        structural_hash (root (CompletionTree H completions' None)))
   \<and> (length ss = length completions \<and> length ss' = length completions'
        \<and> mset (zip completions ss) = mset (zip completions' ss') \<and> distinct completions \<longrightarrow>
        structural_hash (root (CompletionTree H completions (Some ss))) =
        structural_hash (root (CompletionTree H completions' (Some ss'))))
   \<and> structural_hash (root (CompletionTree H [[a, b], [a, c]] None)) =
       structural_hash (root (CompletionTree H [[a, c], [a, b]] None))
   \<and> (structural_hash n1 = None \<and> structural_hash n2 = None
        \<and> token_id n1 = token_id n2
        \<and> is_end_of_completion n1 = is_end_of_completion n2
        \<and> (if is_end_of_completion n1 then score n1 else None) =
           (if is_end_of_completion n2 then score n2 else None)
        \<and> distinct (map fst (children n1))
        \<and> mset (map (\<lambda>p. (fst p, fingerprint H (snd p))) (children n1)) =
           mset (map (\<lambda>p. (fst p, fingerprint H (snd p))) (children n2))
      \<longrightarrow> fingerprint H n1 = fingerprint H n2)"
proof -
  have perm: "structural_hash (root (CompletionTree H cs sc)) =
      structural_hash (root (CompletionTree H cs' sc'))"
    if "mset (entries cs sc) = mset (entries cs' sc')" and "distinct cs" for cs sc cs' sc'
  proof -
    from that have "fingerprint H (fst (build_tree cs sc 0)) = fingerprint H (fst (build_tree cs' sc' 0))"
      by (rule fingerprint_build_tree_permuted)
    then show ?thesis by (simp add: root_fingerprint)
  qed
  have general: "\<exists>h. structural_hash (root (CompletionTree H completions scores)) = Some h
          \<and> structural_hash (root (CompletionTree H completions' scores')) = Some h"
    if "mset (entries completions scores) = mset (entries completions' scores')" and "distinct completions"
    using perm [OF that] by (simp add: root_fingerprint)
  have unscored: "structural_hash (root (CompletionTree H completions None)) =
        structural_hash (root (CompletionTree H completions' None))"
    if "mset completions = mset completions'" and "distinct completions"
    using that by (intro perm mset_entries_None)
  have scored: "structural_hash (root (CompletionTree H completions (Some ss))) =
        structural_hash (root (CompletionTree H completions' (Some ss')))"
    if "length ss = length completions" and "length ss' = length completions'"
      and "mset (zip completions ss) = mset (zip completions' ss')" and "distinct completions"
    using that by (intro perm mset_entries_Some)
  have swap: "structural_hash (root (CompletionTree H [[a, b], [a, c]] None)) =
       structural_hash (root (CompletionTree H [[a, c], [a, b]] None))"
  proof (cases "b = c")
    case True
    then show ?thesis by simp
  next
    case False
    then have "mset [[a, b], [a, c]] = mset [[a, c], [a, b]]" "distinct [[a, b], [a, c]]"
      by simp_all
    then show ?thesis
      by (intro perm mset_entries_None)
  qed
  have node: "fingerprint H n1 = fingerprint H n2"
    if a: "structural_hash n1 = None \<and> structural_hash n2 = None
        \<and> token_id n1 = token_id n2
        \<and> is_end_of_completion n1 = is_end_of_completion n2
        \<and> (if is_end_of_completion n1 then score n1 else None) =
           (if is_end_of_completion n2 then score n2 else None)
        \<and> distinct (map fst (children n1))
        \<and> mset (map (\<lambda>p. (fst p, fingerprint H (snd p))) (children n1)) =
           mset (map (\<lambda>p. (fst p, fingerprint H (snd p))) (children n2))"
  proof (rule fingerprint_children_permuted)
    show "is_end_of_completion n1 \<Longrightarrow> score n1 = score n2"
      using a by (simp split: if_splits)
  qed (use a in simp_all)
  from general unscored scored swap node show ?thesis
    by blast
qed

theorem C6_witness:
  "(\<forall>H. structural_hash (root (CompletionTree H [[1, 2], [1, 3], [4]] (Some [Finite (1 / 2), Finite 1]))) =
         structural_hash (root (CompletionTree H [[1, 3], [1, 2], [4]] (Some [Finite 1, Finite (1 / 2)]))))
   \<and> (\<forall>H. structural_hash (root (CompletionTree H [[1, 2], [1, 3], [4]] None)) =
         structural_hash (root (CompletionTree H [[4], [1, 3], [1, 2]] None)))
   \<and> (\<forall>H. structural_hash (root (CompletionTree H [[1, 2], [1, 3]] (Some [Finite (1 / 2), Finite 1]))) =
         structural_hash (root (CompletionTree H [[1, 3], [1, 2]] (Some [Finite 1, Finite (1 / 2)]))))
   \<and> (\<forall>H. fingerprint H (Node ROOT 0 [(2, TreeNode (Tok 2) 1), (1, TreeNode (Tok 1) 2)] False None 3 None 0 (Finite 0))
          = fingerprint H (Node ROOT 9 [(1, TreeNode (Tok 1) 7), (2, TreeNode (Tok 2) 8)] False None 5 None 0 (Finite 0)))"
proof (intro conjI allI)
  fix H :: "hash_components \<Rightarrow> int"
  have "mset (entries [[1, 2], [1, 3], [4]] (Some [Finite (1 / 2), Finite 1])) =
        mset (entries [[1, 3], [1, 2], [4]] (Some [Finite 1, Finite (1 / 2)]))"
    "distinct [[1, 2], [1, 3], [4::int]]"
    by (simp_all add: entries_def score_for_def)
  with C6_fingerprint_insertion_order [where completions = "[[1, 2], [1, 3], [4]]"
      and scores = "Some [Finite (1 / 2), Finite 1]" and completions' = "[[1, 3], [1, 2], [4]]"
      and scores' = "Some [Finite 1, Finite (1 / 2)]" and H = H, THEN conjunct1]
  show "structural_hash (root (CompletionTree H [[1, 2], [1, 3], [4]] (Some [Finite (1 / 2), Finite 1]))) =
         structural_hash (root (CompletionTree H [[1, 3], [1, 2], [4]] (Some [Finite 1, Finite (1 / 2)])))"
    by auto
  have "mset [[1, 2], [1, 3], [4::int]] = mset [[4], [1, 3], [1, 2]]"
    "distinct [[1, 2], [1, 3], [4::int]]"
    by simp_all
  with C6_fingerprint_insertion_order [where completions = "[[1, 2], [1, 3], [4]]"
      and completions' = "[[4], [1, 3], [1, 2]]" and H = H, THEN conjunct2, THEN conjunct1]
  show "structural_hash (root (CompletionTree H [[1, 2], [1, 3], [4]] None)) =
         structural_hash (root (CompletionTree H [[4], [1, 3], [1, 2]] None))"
    by blast
  have "mset (zip [[1, 2], [1, 3::int]] [Finite (1 / 2), Finite 1]) = mset (zip [[1, 3], [1, 2]] [Finite 1, Finite (1 / 2)])"
    "distinct [[1, 2], [1, 3::int]]"
    by simp_all
  with C6_fingerprint_insertion_order [where completions = "[[1, 2], [1, 3]]"
      and completions' = "[[1, 3], [1, 2]]" and ss = "[Finite (1 / 2), Finite 1]" and ss' = "[Finite 1, Finite (1 / 2)]" and H = H,
      THEN conjunct2, THEN conjunct2, THEN conjunct1]
  show "structural_hash (root (CompletionTree H [[1, 2], [1, 3]] (Some [Finite (1 / 2), Finite 1]))) =
         structural_hash (root (CompletionTree H [[1, 3], [1, 2]] (Some [Finite 1, Finite (1 / 2)])))"
    by simp
  let ?n1 = "Node ROOT 0 [(2, TreeNode (Tok 2) 1), (1, TreeNode (Tok 1) 2)] False None 3 None 0 (Finite 0)"
  let ?n2 = "Node ROOT 9 [(1, TreeNode (Tok 1) 7), (2, TreeNode (Tok 2) 8)] False None 5 None 0 (Finite 0)"
  have "mset (map (\<lambda>p. (fst p, fingerprint H (snd p))) (children ?n1)) =
        mset (map (\<lambda>p. (fst p, fingerprint H (snd p))) (children ?n2))"
    by (simp add: fingerprint_unhashed)
  with C6_fingerprint_insertion_order [where H = H and ?n1.0 = ?n1 and ?n2.0 = ?n2,
      THEN conjunct2, THEN conjunct2, THEN conjunct2, THEN conjunct2]
  show "fingerprint H ?n1 = fingerprint H ?n2"
    by simp
qed

section \<open>Scores assigned during construction\<close>

text \<open>
  Claim C7. Construction is a total function of its inputs whatever the length of the
  score list: the read \<open>scores[i]\<close> is guarded by \<open>i < len(scores)\<close>. For every completion
  of the batch, the node reached by its tokens exists in the finished tree and is an end
  node, and its score is the score of the last completion that ends at this node and has
  an index within the bounds of the score list; when no such completion exists the node
  has no score. So an in-bounds completion sets the score and overwrites earlier ones,
  and an out-of-bounds completion assigns nothing.
\<close>

theorem C7_scores_shorter_than_completions:
  assumes "i < length completions"
  shows "\<exists>n. node_at (root (CompletionTree H completions scores)) (completions ! i) = Some n
           \<and> is_end_of_completion n
           \<and> score n = (if scored_indices completions scores (completions ! i) = [] then None
                        else Some (score_list scores ! last (scored_indices completions scores (completions ! i))))"
proof -
  let ?r = "root (CompletionTree H completions scores)"
  let ?p = "completions ! i"
  have "end_at ?r ?p"
    using assms by (simp add: root_CompletionTree build_tree_def end_at_build_loop)
  then obtain n where n: "node_at ?r ?p = Some n" "is_end_of_completion n"
    by (auto simp: end_at_node_at)
  have "score_at ?r ?p = (if scored_indices completions scores ?p = [] then None
                        else Some (score_list scores ! last (scored_indices completions scores ?p)))"
    by (simp add: root_CompletionTree build_tree_def score_at_build_loop)
  with n show ?thesis
    by (simp add: score_at_node_at)
qed

theorem C7_witness:
  "\<forall>H. (\<exists>n. node_at (root (CompletionTree H [[1], [1], [1], [2]] (Some [Finite (1/4), Finite (3/4)]))) [1] = Some n
            \<and> is_end_of_completion n \<and> score n = Some (Finite (3/4)))
      \<and> (\<exists>n. node_at (root (CompletionTree H [[1], [1], [1], [2]] (Some [Finite (1/4), Finite (3/4)]))) [2] = Some n
            \<and> is_end_of_completion n \<and> score n = None)"
  using C7_scores_shorter_than_completions [of 2 "[[1], [1], [1], [2]]" _ "Some [Finite (1/4), Finite (3/4)]"]
    C7_scores_shorter_than_completions [of 3 "[[1], [1], [1], [2]]" _ "Some [Finite (1/4), Finite (3/4)]"]
  by (simp add: scored_indices_def score_list_def)

text \<open>
  Claim C10. One pass of the loop body for a completion whose index is out of the bounds
  of the score list: when its tokens lead to an existing node, the node is still there
  afterwards with the score it had and with the end flag set, and no path of the tree
  changes its score. In general a pass changes the score at the completion's own path
  only, and only when the index is within bounds.
\<close>

theorem C10_unscored_termination_keeps_score:
  assumes "length ss \<le> i" and "node_at (fst st) tokens = Some n"
  shows "(\<exists>n'. node_at (fst (build_loop (Some ss) i [tokens] st)) tokens = Some n'
            \<and> score n' = score n \<and> is_end_of_completion n')
       \<and> score_at (fst (build_loop (Some ss) i [tokens] st)) p = score_at (fst st) p
       \<and> score_at (fst (build_loop (Some ss) k [tokens] st)) q =
           (if q = tokens \<and> k < length ss then Some (ss ! k) else score_at (fst st) q)"
proof -
  let ?r = "fst (build_loop (Some ss) i [tokens] st)"
  have frame: "score_at ?r p' = score_at (fst st) p'" for p'
    using assms(1) by (simp add: score_at_insert_tokens score_for_def)
  have "end_at ?r tokens"
    by (simp add: end_at_insert_tokens)
  then obtain n' where n': "node_at ?r tokens = Some n'" "is_end_of_completion n'"
    by (auto simp: end_at_node_at)
  have "score n' = score n"
    using frame [of tokens] n'(1) assms(2) by (simp add: score_at_node_at)
  moreover have "score_at (fst (build_loop (Some ss) k [tokens] st)) q =
      (if q = tokens \<and> k < length ss then Some (ss ! k) else score_at (fst st) q)"
    by (simp add: score_at_insert_tokens score_for_def)
  ultimately show ?thesis
    using n' frame by simp
qed

theorem C10_witness:
  "\<exists>n'. node_at (fst (build_loop (Some [Finite (1/2)]) 1 [[7, 8]] (build_tree [[7, 8]] (Some [Finite (1/2)]) 0))) [7, 8] = Some n'
      \<and> score n' = Some (Finite (1/2)) \<and> is_end_of_completion n'"
proof -
  have "node_at (fst (build_tree [[7, 8]] (Some [Finite (1/2)]) 0)) [7, 8]
          = Some (Node (Tok 8) 2 [] True (Some (Finite (1/2))) 1 None 0 (Finite 0))"
    by (simp add: build_tree_def insert_tokens.simps(2) child_for_def TreeNode_def score_for_def)
  from C10_unscored_termination_keeps_score [OF _ this, of "[Finite (1/2)]" 1]
  show ?thesis by simp
qed

section \<open>The aggregate score of the root\<close>

text \<open>
  The floats that the literals \<open>0.1\<close>, \<open>0.2\<close> and \<open>0.3\<close> denote, two sums of them in
  different orders, and quotients by 3.
\<close>

lemma tenths:
  "round_double (1 / 10) = Finite (3602879701896397 / 36028797018963968)"
  "round_double (1 / 5) = Finite (3602879701896397 / 18014398509481984)"
  "round_double (3 / 10) = Finite (5404319552844595 / 18014398509481984)"
  by (simp_all add: float_eval)

lemma tenths_ascending:
  "float_add (Finite 0) (Finite (3602879701896397 / 36028797018963968))
     = Finite (3602879701896397 / 36028797018963968)"
  "float_add (Finite (3602879701896397 / 36028797018963968)) (Finite (3602879701896397 / 18014398509481984))
     = Finite (1351079888211149 / 4503599627370496)"
  "float_add (Finite (1351079888211149 / 4503599627370496)) (Finite (5404319552844595 / 18014398509481984))
     = Finite (1351079888211149 / 2251799813685248)"
  "float_div_count (Finite (1351079888211149 / 2251799813685248)) 3
     = Finite (7205759403792795 / 36028797018963968)"
  by (simp_all add: float_eval)

lemma tenths_descending:
  "float_add (Finite 0) (Finite (5404319552844595 / 18014398509481984))
     = Finite (5404319552844595 / 18014398509481984)"
  "float_add (Finite (5404319552844595 / 18014398509481984)) (Finite (3602879701896397 / 18014398509481984))
     = Finite (1 / 2)"
  "float_add (Finite (1 / 2)) (Finite (3602879701896397 / 36028797018963968))
     = Finite (5404319552844595 / 9007199254740992)"
  "float_div_count (Finite (5404319552844595 / 9007199254740992)) 3
     = Finite (7205759403792793 / 36028797018963968)"
  by (simp_all add: float_eval)

lemma tenths_mean:
  "round_double (sum_list (map float_value
       [round_double (1 / 10), round_double (2 / 10), round_double (3 / 10)]) / 3)
     = Finite (3602879701896397 / 18014398509481984)"
  by (simp add: tenths) (simp add: float_eval)

text \<open>
  Claim C8, as the code has it. For a non-empty batch of pairwise distinct completions,
  none a prefix of another, with a score list that covers every completion, the root
  counts one leaf for each completion, and its aggregate score percentage is its score
  sum, which the pass adds up in floating point, divided by that count. When moreover
  the scores of the completions (the first \<open>len(completions)\<close> entries of the score
  list) are non-negative multiples of one power of two \<open>2^(-k)\<close>, such as the scores \<open>0.0\<close>
  and \<open>1.0\<close> of \<open>examples/math_example.py\<close>, whose total is below \<open>2^(53-k)\<close>, no addition
  rounds, and the percentage is the arithmetic mean of these scores, rounded once to the
  nearest float by the division.
\<close>

theorem C8_root_percentage_is_mean:
  assumes "completions \<noteq> []" and "distinct completions"
    and "\<forall>a\<in>set completions. \<forall>b\<in>set completions. prefix a b \<longrightarrow> a = b"
    and "length completions \<le> length scs"
  shows "descendant_leaf_count (root (CompletionTree H completions (Some scs))) = length completions
       \<and> get_node_score_percentage (CompletionTree H completions (Some scs))
           (root (CompletionTree H completions (Some scs)))
         = Some (float_div_count (descendant_score_sum (root (CompletionTree H completions (Some scs))))
                   (length completions))
       \<and> (k \<le> 1074 \<and> (\<forall>s\<in>set (take (length completions) scs). on_grid k s)
            \<and> sum_list (map float_value (take (length completions) scs)) * 2 ^ k < 2 ^ 53
            \<and> length completions < 2 ^ 53 \<longrightarrow>
          get_node_score_percentage (CompletionTree H completions (Some scs))
            (root (CompletionTree H completions (Some scs)))
          = Some (round_double (sum_list (map float_value (take (length completions) scs))
                                 / of_nat (length completions))))"
proof -
  let ?tree = "CompletionTree H completions (Some scs)"
  let ?built = "fst (build_tree completions (Some scs) 0)"
  let ?hashed = "fst (compute_structural_hashes H ?built)"
  let ?total = "sum_list (map float_value (take (length completions) scs))"
  have exact: "exact_stats ?built = (length completions, ?total)"
    using assms(2-4) by (rule exact_stats_build_tree)
  have leaves: "descendant_leaf_count (root ?tree) = length completions"
    by (simp add: root_leaf_stats leaf_count_exact exact)
  have "has_scores ?tree"
    by (simp add: CompletionTree_def Let_def)
  with leaves assms(1) have quotient: "get_node_score_percentage ?tree (root ?tree)
      = Some (float_div_count (descendant_score_sum (root ?tree)) (length completions))"
    by (simp add: get_node_score_percentage_def)
  have "get_node_score_percentage ?tree (root ?tree)
      = Some (round_double (?total / of_nat (length completions)))"
    if k: "k \<le> 1074" and grid: "\<forall>s\<in>set (take (length completions) scs). on_grid k s"
      and small: "?total * 2 ^ k < 2 ^ 53" and few: "length completions < 2 ^ 53"
  proof -
    from grid have "all_scores (on_grid k) ?hashed"
      by (simp add: all_scores_build_tree)
    with k have "leaf_stats ?hashed = (fst (exact_stats ?hashed), Finite (snd (exact_stats ?hashed)))"
      using small by (intro leaf_stats_exact) (simp_all add: exact)
    then have "descendant_score_sum (root ?tree) = Finite ?total"
      by (simp add: root_leaf_stats exact)
    with quotient few show ?thesis
      by (simp add: float_div_count_Finite)
  qed
  with leaves quotient show ?thesis by blast
qed

theorem C8_witness:
  "\<forall>H. descendant_leaf_count
          (root (CompletionTree H [[1, 2, 3], [1, 2, 4], [1, 5]] (Some [Finite (1 / 2), Finite (1 / 4), Finite 1]))) = 3
      \<and> get_node_score_percentage
          (CompletionTree H [[1, 2, 3], [1, 2, 4], [1, 5]] (Some [Finite (1 / 2), Finite (1 / 4), Finite 1]))
          (root (CompletionTree H [[1, 2, 3], [1, 2, 4], [1, 5]] (Some [Finite (1 / 2), Finite (1 / 4), Finite 1])))
        = Some (round_double (7 / 12))"
proof
  fix H :: "hash_components \<Rightarrow> int"
  let ?cs = "[[1, 2, 3], [1, 2, 4], [1, 5::int]]"
  let ?scs = "[Finite (1 / 2), Finite (1 / 4), Finite 1]"
  have "\<forall>a\<in>set ?cs. \<forall>b\<in>set ?cs. prefix a b \<longrightarrow> a = b"
    by simp
  moreover have "\<forall>s\<in>set (take (length ?cs) ?scs). on_grid 2 s"
    by (simp add: on_grid_def)
  ultimately have "descendant_leaf_count (root (CompletionTree H ?cs (Some ?scs))) = 3"
    and "get_node_score_percentage (CompletionTree H ?cs (Some ?scs))
          (root (CompletionTree H ?cs (Some ?scs)))
        = Some (round_double (7 / 12))"
    using C8_root_percentage_is_mean [of ?cs ?scs H 2, THEN conjunct1]
      C8_root_percentage_is_mean [of ?cs ?scs H 2, THEN conjunct2, THEN conjunct2]
    by simp_all
  then show "descendant_leaf_count (root (CompletionTree H ?cs (Some ?scs))) = 3
      \<and> get_node_score_percentage (CompletionTree H ?cs (Some ?scs))
          (root (CompletionTree H ?cs (Some ?scs)))
        = Some (round_double (7 / 12))"
    by (rule conjI)
qed

text \<open>
  The claim as stated fails in four ways. When a completion occurs twice, as in
  \<open>[[1], [1]]\<close> with scores \<open>[0.0, 1.0]\<close> (no strict prefix pair, a full score list), both
  completions end at the same node, the later score replaces the earlier one, and the
  root reports 1.0 while the mean of the scores is 0.5. For the empty batch the query
  returns \<open>None\<close>. Scores beyond the last completion are ignored: \<open>[[1]]\<close> with scores
  \<open>[1.0, 0.0]\<close> reports 1.0 while the mean of the supplied scores is 0.5. And additions
  round: \<open>[[1], [2], [3]]\<close> with scores \<open>[0.1, 0.2, 0.3]\<close> reports 0.20000000000000004,
  the same completions and scores in the opposite order report 0.19999999999999998, and
  the mean of the three floats, rounded to the nearest float, is 0.2.
\<close>

theorem C8_counterexample:
  "\<not> strict_prefix [1 :: int] [1]
   \<and> length [Finite 0, Finite 1] = length [[1], [1 :: int]]
   \<and> (\<forall>H. get_node_score_percentage (CompletionTree H [[1], [1]] (Some [Finite 0, Finite 1]))
            (root (CompletionTree H [[1], [1]] (Some [Finite 0, Finite 1]))) = Some (Finite 1))
   \<and> round_double (sum_list (map float_value [Finite 0, Finite 1]) / of_nat (length [[1], [1 :: int]]))
       = Finite (1 / 2)
   \<and> (\<forall>H. get_node_score_percentage (CompletionTree H [] (Some []))
            (root (CompletionTree H [] (Some []))) = None)
   \<and> (\<forall>H. get_node_score_percentage (CompletionTree H [[1]] (Some [Finite 1, Finite 0]))
            (root (CompletionTree H [[1]] (Some [Finite 1, Finite 0]))) = Some (Finite 1))
   \<and> round_double (sum_list (map float_value [Finite 1, Finite 0]) / of_nat (length [Finite 1, Finite 0]))
       = Finite (1 / 2)
   \<and> (\<forall>H. get_node_score_percentage
            (CompletionTree H [[1], [2], [3]]
               (Some [round_double (1 / 10), round_double (2 / 10), round_double (3 / 10)]))
            (root (CompletionTree H [[1], [2], [3]]
               (Some [round_double (1 / 10), round_double (2 / 10), round_double (3 / 10)])))
          = Some (Finite (7205759403792795 / 36028797018963968)))
   \<and> (\<forall>H. get_node_score_percentage
            (CompletionTree H [[3], [2], [1]]
               (Some [round_double (3 / 10), round_double (2 / 10), round_double (1 / 10)]))
            (root (CompletionTree H [[3], [2], [1]]
               (Some [round_double (3 / 10), round_double (2 / 10), round_double (1 / 10)])))
          = Some (Finite (7205759403792793 / 36028797018963968)))
   \<and> round_double (sum_list (map float_value
         [round_double (1 / 10), round_double (2 / 10), round_double (3 / 10)]) / 3)
       = Finite (3602879701896397 / 18014398509481984)"
proof -
  note tree_eval = get_node_score_percentage_def CompletionTree_def build_tree_def
    insert_tokens.simps(2) child_for_def TreeNode_def score_for_def Let_def
  have twice: "\<forall>H. get_node_score_percentage (CompletionTree H [[1], [1]] (Some [Finite 0, Finite 1]))
            (root (CompletionTree H [[1], [1]] (Some [Finite 0, Finite 1]))) = Some (Finite 1)"
    by (simp add: tree_eval float_div_count_Finite)
  have twice_mean: "round_double (sum_list (map float_value [Finite 0, Finite 1]) / of_nat (length [[1], [1 :: int]]))
       = Finite (1 / 2)"
    by simp
  have empty: "\<forall>H. get_node_score_percentage (CompletionTree H [] (Some []))
            (root (CompletionTree H [] (Some []))) = None"
    by (simp add: tree_eval)
  have extra: "\<forall>H. get_node_score_percentage (CompletionTree H [[1]] (Some [Finite 1, Finite 0]))
            (root (CompletionTree H [[1]] (Some [Finite 1, Finite 0]))) = Some (Finite 1)"
    by (simp add: tree_eval float_div_count_Finite)
  have extra_mean: "round_double (sum_list (map float_value [Finite 1, Finite 0]) / of_nat (length [Finite 1, Finite 0]))
       = Finite (1 / 2)"
    by simp
  have ascending: "\<forall>H. get_node_score_percentage
            (CompletionTree H [[1], [2], [3]]
               (Some [round_double (1 / 10), round_double (2 / 10), round_double (3 / 10)]))
            (root (CompletionTree H [[1], [2], [3]]
               (Some [round_double (1 / 10), round_double (2 / 10), round_double (3 / 10)])))
          = Some (Finite (7205759403792795 / 36028797018963968))"
    by (simp add: tree_eval tenths tenths_ascending [unfolded numeral_3_eq_3] del: float_add_Finite)
  have descending: "\<forall>H. get_node_score_percentage
            (CompletionTree H [[3], [2], [1]]
               (Some [round_double (3 / 10), round_double (2 / 10), round_double (1 / 10)]))
            (root (CompletionTree H [[3], [2], [1]]
               (Some [round_double (3 / 10), round_double (2 / 10), round_double (1 / 10)])))
          = Some (Finite (7205759403792793 / 36028797018963968))"
    by (simp add: tree_eval tenths tenths_descending [unfolded numeral_3_eq_3] del: float_add_Finite)
  show ?thesis
    by (intro conjI twice twice_mean empty extra extra_mean ascending descending tenths_mean) simp_all
qed

section \<open>Termination and recursion depth\<close>

text \<open>
  Claim C9, as the code has it. Construction and both passes are total functions, so they
  terminate on every finite batch; construction is a loop and uses no recursion. The
  passes recurse once per tree level: with room for \<open>d\<close> nested activations, the
  fingerprint pass on the constructed tree completes (with the result of the unbounded
  function) exactly when the longest completion is shorter than \<open>d\<close>, and raises
  \<open>RecursionError\<close> otherwise; under the same condition the statistics pass completes.
\<close>

theorem C9_passes_within_recursion_limit:
  "compute_structural_hashes_limited d H (fst (build_tree completions scores nid)) =
     (if fold max (map length completions) 0 < d
      then Inr (compute_structural_hashes H (fst (build_tree completions scores nid)))
      else Inl RecursionError)
   \<and> (fold max (map length completions) 0 < d \<longrightarrow>
        compute_leaf_stats_limited d
            (fst (compute_structural_hashes H (fst (build_tree completions scores nid)))) =
          Inr (compute_leaf_stats
            (fst (compute_structural_hashes H (fst (build_tree completions scores nid))))))"
  using limited_hashes_build_tree [of d H completions scores nid]
    limited_stats_build_tree [of completions d H scores nid]
  by blast

theorem C9_witness:
  "compute_structural_hashes_limited 3 (\<lambda>_. 0) (fst (build_tree [[1, 2], [3]] None 0)) =
     Inr (compute_structural_hashes (\<lambda>_. 0) (fst (build_tree [[1, 2], [3]] None 0)))
   \<and> compute_leaf_stats_limited 3
        (fst (compute_structural_hashes (\<lambda>_. 0) (fst (build_tree [[1, 2], [3]] None 0)))) =
      Inr (compute_leaf_stats
        (fst (compute_structural_hashes (\<lambda>_. 0) (fst (build_tree [[1, 2], [3]] None 0)))))"
  using C9_passes_within_recursion_limit [of 3 "\<lambda>_. 0" "[[1, 2], [3]]" None 0]
  by simp

text \<open>
  The claim as stated fails: with room for 1000 nested activations (more than Python's
  default limit of 1000 frames leaves to the pass) one completion of 1000 tokens makes
  the fingerprint pass raise, and whatever the limit is, some batch exceeds it.
\<close>

theorem C9_counterexample:
  "(\<forall>H. compute_structural_hashes_limited 1000 H (fst (build_tree [replicate 1000 0] None 0))
         = Inl RecursionError)
   \<and> \<not> (\<exists>d. \<forall>completions. \<exists>res.
          compute_structural_hashes_limited d (\<lambda>_. 0) (fst (build_tree completions None 0)) = Inr res)"
proof
  show "\<forall>H. compute_structural_hashes_limited 1000 H (fst (build_tree [replicate 1000 0] None 0))
         = Inl RecursionError"
    by (simp add: limited_hashes_build_tree)
  show "\<not> (\<exists>d. \<forall>completions. \<exists>res.
          compute_structural_hashes_limited d (\<lambda>_. 0) (fst (build_tree completions None 0)) = Inr res)"
  proof
    assume "\<exists>d. \<forall>completions. \<exists>res.
          compute_structural_hashes_limited d (\<lambda>_. 0) (fst (build_tree completions None 0)) = Inr res"
    then obtain d res where
      "compute_structural_hashes_limited d (\<lambda>_. 0) (fst (build_tree [replicate d 0] None 0)) = Inr res"
      by blast
    then show False
      by (simp add: limited_hashes_build_tree)
  qed
qed

end
